theory Spec2Isabelle
  imports Complex_Main "HOL-Library.AList" "HOL-Library.Multiset"
begin

chapter \<open>The model\<close>

section \<open>Python values the model needs\<close>

text \<open>
  Exceptions are values: a function of the source that can raise returns
  \<open>py_error + 'a\<close>, with \<open>Inl\<close> for the exception. \<open>Undefined\<close> is not an exception:
  it stands for a floating-point result that is no real number (a division by zero) and
  for a cast that numpy leaves undefined (a value outside the 32-bit integers).
  Floating-point numbers are modelled as real numbers; the rounding error of a single
  operation is not part of the model.
\<close>

datatype py_error = IndexError | TypeError | ValueError | OverflowError | Undefined

type_synonym gid = int

text \<open>Connection objects are mutable and shared, so the index holds references.\<close>

type_synonym ref = nat

text \<open>
  \<open>xs[i]\<close>, \<open>del xs[i]\<close>, \<open>xs.pop(i)\<close> and \<open>xs.insert(i, x)\<close> for an index that is not
  negative: the first three raise IndexError beyond the end, the last one appends there.
\<close>

definition py_getitem :: "'a list \<Rightarrow> nat \<Rightarrow> py_error + 'a" where
  "py_getitem xs i = (if i < length xs then Inr (xs ! i) else Inl IndexError)"

definition py_del :: "'a list \<Rightarrow> nat \<Rightarrow> py_error + 'a list" where
  "py_del xs i = (if i < length xs then Inr (take i xs @ drop (Suc i) xs) else Inl IndexError)"

definition py_pop :: "'a list \<Rightarrow> nat \<Rightarrow> py_error + ('a \<times> 'a list)" where
  "py_pop xs i =
     (if i < length xs then Inr (xs ! i, take i xs @ drop (Suc i) xs) else Inl IndexError)"

definition py_insert :: "'a list \<Rightarrow> nat \<Rightarrow> 'a \<Rightarrow> 'a list" where
  "py_insert xs i x = take i xs @ x # drop i xs"

text \<open>
  A log record: level, format string and arguments, as passed to \<open>logging.warning\<close> and
  \<open>logging.error\<close>. Debug and progress messages are not recorded.
\<close>

datatype log_level = WARNING | ERROR

type_synonym log_record = "log_level \<times> string \<times> int list"

section \<open>The helpers of neurodamus.utils\<close>

text \<open>
  Modelled from the spec: \<open>bin_search\<close> (neurodamus.utils, which is not among the source
  files) is the binary search of \<open>_find_connection\<close>: in a container ordered by the key
  function it returns the insertion point of the key, a position from 0 up to the
  container's length; an element with the searched key, if there is one, stands at that
  position (\<open>_find_connection\<close> tests \<open>cell_conns[pos].sgid != sgid\<close>).
\<close>

function bin_search_loop :: "'a list \<Rightarrow> int \<Rightarrow> ('a \<Rightarrow> int) \<Rightarrow> nat \<Rightarrow> nat \<Rightarrow> nat" where
  "bin_search_loop container key keyf lo hi =
     (if lo < hi then
        (let mid = (lo + hi) div 2 in
         if key > keyf (container ! mid)
         then bin_search_loop container key keyf (mid + 1) hi
         else bin_search_loop container key keyf lo mid)
      else lo)"
  by pat_completeness auto
termination
  by (relation "measure (\<lambda>(c, k, f, lo, hi). hi - lo)") auto

declare bin_search_loop.simps [simp del]

definition bin_search :: "'a list \<Rightarrow> int \<Rightarrow> ('a \<Rightarrow> int) \<Rightarrow> nat" where
  "bin_search container key keyf = bin_search_loop container key keyf 0 (length container)"

text \<open>
  Modelled from the spec: \<open>OrderedDefaultDict\<close> (neurodamus.utils, which is not among the
  source files) is the mapping from a destination gid to its bucket, iterated in the order
  in which the keys were first stored. Reading a key that is missing stores an empty
  bucket under it and returns that bucket: \<open>store_connection\<close> inserts into the list
  that \<open>_find_connection\<close> read from the map and \<open>disable\<close> appends to
  \<open>self._disabled_conns[tgid]\<close>, with no assignment to the map anywhere.
  The dictionary is an association list with distinct keys; \<open>odd_getitem\<close> returns
  the bucket and the dictionary after the read.
\<close>

type_synonym 'v odd = "(gid \<times> 'v list) list"

definition odd_getitem :: "'v odd \<Rightarrow> gid \<Rightarrow> 'v list \<times> 'v odd" where
  "odd_getitem d k =
     (case map_of d k of
        Some v \<Rightarrow> (v, d)
      | None \<Rightarrow> ([], d @ [(k, [])]))"

text \<open>An in-place change of the bucket stored under a key.\<close>

definition odd_put :: "'v odd \<Rightarrow> gid \<Rightarrow> 'v list \<Rightarrow> 'v odd" where
  "odd_put d k v = AList.update k v d"

definition odd_values :: "'v odd \<Rightarrow> 'v list list" where
  "odd_values d = map snd d"

text \<open>The bucket stored under a key, empty when the key is missing.\<close>

definition bucket_of :: "'v odd \<Rightarrow> gid \<Rightarrow> 'v list" where
  "bucket_of d k = (case map_of d k of Some v \<Rightarrow> v | None \<Rightarrow> [])"

section \<open>Connections\<close>

text \<open>
  Modelled from the spec: \<open>Connection\<close> (neurodamus.connection, which is not among the
  source files). The record keeps the attributes that the manager reads or writes:
  the two gids, the weight factor, the synapse placements that \<open>add_synapse\<close> appends and
  the disabled flag that \<open>disable\<close> sets and \<open>enable\<close> clears. The other constructor
  arguments (configuration, STDP mode, minis rate, synapse mode) are kept together in
  \<open>settings\<close>. What \<open>disable\<close> and \<open>enable\<close> do to the simulator's netcons and
  conductances is outside the model.
\<close>

record ('c, 'p) connection =
  sgid :: gid
  tgid :: gid
  weight_factor :: real
  settings :: 'c
  synapses :: "'p list"
  disabled :: bool

definition Connection :: "gid \<Rightarrow> gid \<Rightarrow> real \<Rightarrow> 'c \<Rightarrow> ('c, 'p) connection" where
  "Connection s t w cfg =
     \<lparr>sgid = s, tgid = t, weight_factor = w, settings = cfg, synapses = [], disabled = False\<rparr>"

definition add_synapse :: "'p \<Rightarrow> ('c, 'p) connection \<Rightarrow> ('c, 'p) connection" where
  "add_synapse syn c = c\<lparr>synapses := synapses c @ [syn]\<rparr>"

definition conn_disable :: "bool \<Rightarrow> ('c, 'p) connection \<Rightarrow> ('c, 'p) connection" where
  "conn_disable also_zero_conductance c = c\<lparr>disabled := True\<rparr>"

definition conn_enable :: "('c, 'p) connection \<Rightarrow> ('c, 'p) connection" where
  "conn_enable c = c\<lparr>disabled := False\<rparr>"

section \<open>The connection manager's index\<close>

text \<open>
  The part of \<open>_ConnectionManagerBase\<close> that the index operations use: the objects,
  \<open>_connections_map\<close>, \<open>_disabled_conns\<close> and what was logged.
\<close>

record ('c, 'p) manager =
  heap :: "ref \<Rightarrow> ('c, 'p) connection"
  connections_map :: "ref odd"
  disabled_conns :: "ref odd"
  logged :: "log_record list"

definition new_manager :: "(ref \<Rightarrow> ('c, 'p) connection) \<Rightarrow> ('c, 'p) manager" where
  "new_manager h = \<lparr>heap = h, connections_map = [], disabled_conns = [], logged = []\<rparr>"

definition log_msg ::
  "log_level \<Rightarrow> string \<Rightarrow> int list \<Rightarrow> ('c, 'p, 'z) manager_scheme \<Rightarrow> ('c, 'p, 'z) manager_scheme" where
  "log_msg lvl fmt args st = st\<lparr>logged := logged st @ [(lvl, fmt, args)]\<rparr>"

text \<open>
  \<open>_find_connection\<close>: the bucket, the position (\<open>None\<close> for Python's \<open>None\<close>) and the
  manager after the read of the map.
\<close>

definition find_connection ::
  "gid \<Rightarrow> gid \<Rightarrow> bool \<Rightarrow> ('c, 'p, 'z) manager_scheme
     \<Rightarrow> py_error + (ref list \<times> nat option \<times> ('c, 'p, 'z) manager_scheme)" where
  "find_connection s t exact st =
     (let (cell_conns, cmap) = odd_getitem (connections_map st) t;
          st' = st\<lparr>connections_map := cmap\<rparr>;
          pos = (if cell_conns \<noteq> [] then bin_search cell_conns s (\<lambda>x. sgid (heap st x)) else 0)
      in if exact then
           (if pos = length cell_conns then Inr (cell_conns, None, st')
            else (case py_getitem cell_conns pos of
                    Inl e \<Rightarrow> Inl e
                  | Inr c \<Rightarrow>
                      if sgid (heap st c) \<noteq> s then Inr (cell_conns, None, st')
                      else Inr (cell_conns, Some pos, st')))
         else Inr (cell_conns, Some pos, st'))"

definition get_connection ::
  "gid \<Rightarrow> gid \<Rightarrow> ('c, 'p, 'z) manager_scheme
     \<Rightarrow> py_error + (ref option \<times> ('c, 'p, 'z) manager_scheme)" where
  "get_connection s t st =
     (case find_connection s t True st of
        Inl e \<Rightarrow> Inl e
      | Inr (conn_lst, idx, st') \<Rightarrow>
          (case idx of
             None \<Rightarrow> Inr (None, st')
           | Some i \<Rightarrow>
               (case py_getitem conn_lst i of
                  Inl e \<Rightarrow> Inl e
                | Inr c \<Rightarrow> Inr (Some c, st'))))"

definition store_connection ::
  "ref \<Rightarrow> ('c, 'p, 'z) manager_scheme \<Rightarrow> py_error + ('c, 'p, 'z) manager_scheme" where
  "store_connection conn st =
     (let s = sgid (heap st conn); t = tgid (heap st conn) in
      case find_connection s t False st of
        Inl e \<Rightarrow> Inl e
      | Inr (cell_conns, idx, st') \<Rightarrow>
          (case idx of
             None \<Rightarrow> Inl TypeError
           | Some pos \<Rightarrow>
               (let ins = st'\<lparr>connections_map :=
                                odd_put (connections_map st') t (py_insert cell_conns pos conn)\<rparr>
                in if pos < length cell_conns then
                     (case py_getitem cell_conns pos of
                        Inl e \<Rightarrow> Inl e
                      | Inr c \<Rightarrow>
                          if sgid (heap st' c) = s
                          then Inr (log_msg ERROR
                                      ''Attempt to store existing connection: %d->%d'' [s, t] st')
                          else Inr ins)
                   else Inr ins)))"

definition all_connections :: "('c, 'p, 'z) manager_scheme \<Rightarrow> ref list" where
  "all_connections st = concat (odd_values (connections_map st))"

definition all_disabled :: "('c, 'p, 'z) manager_scheme \<Rightarrow> ref list" where
  "all_disabled st = concat (odd_values (disabled_conns st))"

definition get_connections ::
  "gid \<Rightarrow> ('c, 'p, 'z) manager_scheme \<Rightarrow> ref list \<times> ('c, 'p, 'z) manager_scheme" where
  "get_connections target_gid st =
     (let (conns, cmap) = odd_getitem (connections_map st) target_gid
      in (conns, st\<lparr>connections_map := cmap\<rparr>))"

definition delete ::
  "gid \<Rightarrow> gid \<Rightarrow> ('c, 'p, 'z) manager_scheme \<Rightarrow> py_error + ('c, 'p, 'z) manager_scheme" where
  "delete s t st =
     (case find_connection s t True st of
        Inl e \<Rightarrow> Inl e
      | Inr (conn_lst, idx, st') \<Rightarrow>
          (case idx of
             None \<Rightarrow>
               Inr (log_msg WARNING ''Non-existing connection to disable: %d->%d'' [s, t] st')
           | Some i \<Rightarrow>
               (case py_del conn_lst i of
                  Inl e \<Rightarrow> Inl e
                | Inr lst' \<Rightarrow>
                    Inr (st'\<lparr>connections_map := odd_put (connections_map st') t lst'\<rparr>))))"

definition disable ::
  "gid \<Rightarrow> gid \<Rightarrow> bool \<Rightarrow> ('c, 'p, 'z) manager_scheme
     \<Rightarrow> py_error + ('c, 'p, 'z) manager_scheme" where
  "disable s t also_zero_conductance st =
     (case find_connection s t True st of
        Inl e \<Rightarrow> Inl e
      | Inr (conn_lst, idx, st1) \<Rightarrow>
          (case idx of
             None \<Rightarrow>
               Inr (log_msg WARNING ''Non-existing connection to disable: %d->%d'' [s, t] st1)
           | Some i \<Rightarrow>
               (case py_pop conn_lst i of
                  Inl e \<Rightarrow> Inl e
                | Inr (c, lst') \<Rightarrow>
                    (let st2 = st1\<lparr>connections_map := odd_put (connections_map st1) t lst'\<rparr>;
                         (dis, dmap) = odd_getitem (disabled_conns st2) t;
                         st3 = st2\<lparr>disabled_conns := odd_put dmap t (dis @ [c])\<rparr>
                     in Inr (st3\<lparr>heap := (heap st3)
                                   (c := conn_disable also_zero_conductance (heap st3 c))\<rparr>)))))"

text \<open>The \<open>for i, c in enumerate(...)\<close> loop of \<open>enable\<close>, up to its \<open>break\<close>.\<close>

fun enumerate_find :: "('a \<Rightarrow> bool) \<Rightarrow> nat \<Rightarrow> 'a list \<Rightarrow> (nat \<times> 'a) option" where
  "enumerate_find P i [] = None"
| "enumerate_find P i (c # cs) = (if P c then Some (i, c) else enumerate_find P (Suc i) cs)"

definition enable ::
  "gid \<Rightarrow> gid \<Rightarrow> ('c, 'p, 'z) manager_scheme \<Rightarrow> py_error + ('c, 'p, 'z) manager_scheme" where
  "enable s t st =
     (let (tgid_conns, dmap) = odd_getitem (disabled_conns st) t;
          st1 = st\<lparr>disabled_conns := dmap\<rparr>
      in case enumerate_find (\<lambda>c. sgid (heap st1 c) = s) 0 tgid_conns of
           None \<Rightarrow>
             Inr (log_msg WARNING ''Non-existing connection to enable: %d->%d'' [s, t] st1)
         | Some (i, c) \<Rightarrow>
             (case store_connection c st1 of
                Inl e \<Rightarrow> Inl e
              | Inr st2 \<Rightarrow>
                  (case py_del tgid_conns i of
                     Inl e \<Rightarrow> Inl e
                   | Inr lst' \<Rightarrow>
                       (let st3 = st2\<lparr>disabled_conns := odd_put (disabled_conns st2) t lst'\<rparr>
                        in Inr (st3\<lparr>heap := (heap st3)(c := conn_enable (heap st3 c))\<rparr>)))))"

text \<open>A sequence of \<open>store_connection\<close> calls.\<close>

fun store_all ::
  "ref list \<Rightarrow> ('c, 'p, 'z) manager_scheme \<Rightarrow> py_error + ('c, 'p, 'z) manager_scheme" where
  "store_all [] st = Inr st"
| "store_all (c # cs) st =
     (case store_connection c st of
        Inl e \<Rightarrow> Inl e
      | Inr st' \<Rightarrow> store_all cs st')"

text \<open>A sequence of calls on the manager, stopped by the first exception.\<close>

fun run ::
  "(('c, 'p, 'z) manager_scheme \<Rightarrow> py_error + ('c, 'p, 'z) manager_scheme) list
     \<Rightarrow> ('c, 'p, 'z) manager_scheme \<Rightarrow> py_error + ('c, 'p, 'z) manager_scheme" where
  "run [] st = Inr st"
| "run (f # fs) st =
     (case f st of
        Inl e \<Rightarrow> Inl e
      | Inr st' \<Rightarrow> run fs st')"

section \<open>The group operations\<close>

text \<open>
  \<open>_find_group_in\<close> is a generator: its two loops are suspended at every \<open>yield\<close> while
  the caller's loop body runs, and the inner loop walks the bucket itself, not a copy.
  The three callers differ in the map that is traversed and in the body.
\<close>

datatype group_action = GroupDelete | GroupDisable bool | GroupEnable

fun traversed :: "group_action \<Rightarrow> ('c, 'p, 'z) manager_scheme \<Rightarrow> ref odd" where
  "traversed GroupEnable st = disabled_conns st"
| "traversed GroupDelete st = connections_map st"
| "traversed (GroupDisable z) st = connections_map st"

text \<open>A filter of gids: \<open>None\<close> matches every gid.\<close>

fun gid_matches :: "gid list option \<Rightarrow> gid \<Rightarrow> bool" where
  "gid_matches None g = True"
| "gid_matches (Some gs) g = (g \<in> set gs)"

text \<open>
  The loop bodies, for the yielded connection \<open>conn\<close>, the bucket of key \<open>t\<close> and the
  index \<open>idx\<close>: \<open>del lst[idx]\<close>;
  \<open>self._disabled_conns[conn.tgid].append(lst.pop(idx)); conn.disable(...)\<close>;
  \<open>self.store_connection(lst.pop(idx)); conn.enable()\<close>.
\<close>

fun group_body ::
  "group_action \<Rightarrow> gid \<Rightarrow> nat \<Rightarrow> ref \<Rightarrow> ('c, 'p, 'z) manager_scheme
     \<Rightarrow> py_error + ('c, 'p, 'z) manager_scheme" where
  "group_body GroupDelete t idx conn st =
     (case py_del (bucket_of (connections_map st) t) idx of
        Inl e \<Rightarrow> Inl e
      | Inr lst' \<Rightarrow> Inr (st\<lparr>connections_map := odd_put (connections_map st) t lst'\<rparr>))"
| "group_body (GroupDisable also_zero_conductance) t idx conn st =
     (let (dis, dmap) = odd_getitem (disabled_conns st) (tgid (heap st conn)) in
      case py_pop (bucket_of (connections_map st) t) idx of
        Inl e \<Rightarrow> Inl e
      | Inr (c, lst') \<Rightarrow>
          (let st1 = st\<lparr>connections_map := odd_put (connections_map st) t lst',
                         disabled_conns := odd_put dmap (tgid (heap st conn)) (dis @ [c])\<rparr>
           in Inr (st1\<lparr>heap := (heap st1)
                          (conn := conn_disable also_zero_conductance (heap st1 conn))\<rparr>)))"
| "group_body GroupEnable t idx conn st =
     (case py_pop (bucket_of (disabled_conns st) t) idx of
        Inl e \<Rightarrow> Inl e
      | Inr (c, lst') \<Rightarrow>
          (case store_connection c (st\<lparr>disabled_conns := odd_put (disabled_conns st) t lst'\<rparr>) of
             Inl e \<Rightarrow> Inl e
           | Inr st1 \<Rightarrow> Inr (st1\<lparr>heap := (heap st1)(conn := conn_enable (heap st1 conn))\<rparr>)))"

text \<open>
  The inner loop \<open>for i, c in enumerate(conns)\<close> over the bucket of key \<open>t\<close>, with the
  caller's body run at every yield. The list iterator holds an index and reads the
  bucket as it is at each step.
\<close>

function find_group_in_bucket ::
  "group_action \<Rightarrow> gid list option \<Rightarrow> gid \<Rightarrow> nat \<Rightarrow> ('c, 'p, 'z) manager_scheme
     \<Rightarrow> py_error + ('c, 'p, 'z) manager_scheme" where
  "find_group_in_bucket a pre_gids t i st =
     (let conns = bucket_of (traversed a st) t in
      if i < length conns then
        (let c = conns ! i in
         if \<not> gid_matches pre_gids (sgid (heap st c))
         then find_group_in_bucket a pre_gids t (Suc i) st
         else (case group_body a t i c st of
                 Inl e \<Rightarrow> Inl e
               | Inr st' \<Rightarrow> find_group_in_bucket a pre_gids t (Suc i) st'))
      else Inr st)"
  by pat_completeness auto
termination
proof (relation "measure (\<lambda>(a, pre_gids, t, i, st). length (bucket_of (traversed a st) t) - i)",
    goal_cases)
  case 1
  show ?case by simp
next
  case (2 a pre_gids t i st conns c)
  then show ?case by simp
next
  case (3 a pre_gids t i st conns c st')
  have "length (bucket_of (traversed a st') t) < length (bucket_of (traversed a st) t)"
  proof (cases a)
    case GroupDelete
    with 3 show ?thesis
      by (auto simp: py_del_def bucket_of_def odd_put_def update_conv' split: if_splits)
  next
    case (GroupDisable z)
    with 3 show ?thesis
      by (auto simp: py_pop_def bucket_of_def odd_put_def update_conv' split_beta Let_def
          split: if_splits)
  next
    case GroupEnable
    with 3 obtain x lst' st1
      where p: "py_pop (bucket_of (disabled_conns st) t) i = Inr (x, lst')"
        and s: "store_connection x (st\<lparr>disabled_conns := odd_put (disabled_conns st) t lst'\<rparr>) =
                  Inr st1"
        and e: "st' = st1\<lparr>heap := (heap st1)(c := conn_enable (heap st1 c))\<rparr>"
      by (auto split: sum.splits)
    from s have "disabled_conns st1 = odd_put (disabled_conns st) t lst'"
      by (auto simp: store_connection_def find_connection_def Let_def split_beta log_msg_def
          split: if_splits sum.splits option.splits)
    with p e GroupEnable show ?thesis
      by (auto simp: py_pop_def bucket_of_def odd_put_def update_conv' split: if_splits)
  qed
  with 3 show ?case by simp
qed

declare find_group_in_bucket.simps [simp del]

text \<open>
  The outer loop \<open>for tgid, conns in conn_map.items()\<close>. No body adds a key to the map
  that is traversed (disable_group writes to the disabled map while the active one is
  traversed, enable_group the other way round), so the keys are those at the start.
\<close>

fun find_group_in_keys ::
  "group_action \<Rightarrow> gid list option \<Rightarrow> gid list option \<Rightarrow> gid list
     \<Rightarrow> ('c, 'p, 'z) manager_scheme \<Rightarrow> py_error + ('c, 'p, 'z) manager_scheme" where
  "find_group_in_keys a post_gids pre_gids [] st = Inr st"
| "find_group_in_keys a post_gids pre_gids (t # ts) st =
     (if \<not> gid_matches post_gids t then find_group_in_keys a post_gids pre_gids ts st
      else (case find_group_in_bucket a pre_gids t 0 st of
              Inl e \<Rightarrow> Inl e
            | Inr st' \<Rightarrow> find_group_in_keys a post_gids pre_gids ts st'))"

definition find_group_in ::
  "group_action \<Rightarrow> gid list option \<Rightarrow> gid list option
     \<Rightarrow> ('c, 'p, 'z) manager_scheme \<Rightarrow> py_error + ('c, 'p, 'z) manager_scheme" where
  "find_group_in a post_gids pre_gids st =
     find_group_in_keys a post_gids pre_gids (map fst (traversed a st)) st"

definition delete_group ::
  "gid list option \<Rightarrow> gid list option
     \<Rightarrow> ('c, 'p, 'z) manager_scheme \<Rightarrow> py_error + ('c, 'p, 'z) manager_scheme" where
  "delete_group post_gids pre_gids st = find_group_in GroupDelete post_gids pre_gids st"

definition disable_group ::
  "gid list option \<Rightarrow> gid list option \<Rightarrow> bool
     \<Rightarrow> ('c, 'p, 'z) manager_scheme \<Rightarrow> py_error + ('c, 'p, 'z) manager_scheme" where
  "disable_group post_gids pre_gids also_zero_conductance st =
     find_group_in (GroupDisable also_zero_conductance) post_gids pre_gids st"

definition enable_group ::
  "gid list option \<Rightarrow> gid list option
     \<Rightarrow> ('c, 'p, 'z) manager_scheme \<Rightarrow> py_error + ('c, 'p, 'z) manager_scheme" where
  "enable_group post_gids pre_gids st = find_group_in GroupEnable post_gids pre_gids st"

text \<open>The calls by which connections enter, leave and move between the two indices.\<close>

datatype api_call =
    Store ref
  | Delete gid gid
  | Disable gid gid bool
  | Enable gid gid
  | DeleteGroup "gid list option" "gid list option"
  | DisableGroup "gid list option" "gid list option" bool
  | EnableGroup "gid list option" "gid list option"

fun api ::
  "api_call \<Rightarrow> ('c, 'p, 'z) manager_scheme \<Rightarrow> py_error + ('c, 'p, 'z) manager_scheme" where
  "api (Store c) = store_connection c"
| "api (Delete s t) = delete s t"
| "api (Disable s t z) = disable s t z"
| "api (Enable s t) = enable s t"
| "api (DeleteGroup post pre) = delete_group post pre"
| "api (DisableGroup post pre z) = disable_group post pre z"
| "api (EnableGroup post pre) = enable_group post pre"

section \<open>The gap-junction offsets of GapJunctionManager\<close>

text \<open>
  The values that the constructor's loop computes with: \<open>gj_sum\<close> starts as the integer 0,
  the two fields of a line are strings. \<open>*\<close> multiplies integers and repeats a string,
  \<open>+=\<close> adds integers and concatenates strings; both raise TypeError otherwise.
\<close>

datatype py_value = PyInt int | PyStr string

fun py_mul :: "py_value \<Rightarrow> py_value \<Rightarrow> py_error + py_value" where
  "py_mul (PyInt a) (PyInt b) = Inr (PyInt (a * b))"
| "py_mul (PyInt n) (PyStr s) = Inr (PyStr (concat (replicate (nat n) s)))"
| "py_mul (PyStr s) (PyInt n) = Inr (PyStr (concat (replicate (nat n) s)))"
| "py_mul (PyStr s) (PyStr t) = Inl TypeError"

fun py_add :: "py_value \<Rightarrow> py_value \<Rightarrow> py_error + py_value" where
  "py_add (PyInt a) (PyInt b) = Inr (PyInt (a + b))"
| "py_add (PyStr s) (PyStr t) = Inr (PyStr (s @ t))"
| "py_add (PyInt a) (PyStr t) = Inl TypeError"
| "py_add (PyStr s) (PyInt b) = Inl TypeError"

text \<open>
  \<open>str.strip()\<close> and \<open>str.split()\<close> without arguments. A character is a code point
  below 256; the whitespace among them (\<open>str.isspace\<close>) is the space, the controls
  0x09 to 0x0D and 0x1C to 0x1F, the next-line control 0x85 and the no-break space 0xA0.
\<close>

definition is_space :: "char \<Rightarrow> bool" where
  "is_space c =
     (c \<in> set [CHR '' '', CHR 0x09, CHR 0x0A, CHR 0x0B, CHR 0x0C, CHR 0x0D,
               CHR 0x1C, CHR 0x1D, CHR 0x1E, CHR 0x1F, CHR 0x85, CHR 0xA0])"

definition py_strip :: "string \<Rightarrow> string" where
  "py_strip s = rev (dropWhile is_space (rev (dropWhile is_space s)))"

fun py_split_from :: "string \<Rightarrow> string \<Rightarrow> string list" where
  "py_split_from cur [] = (if cur = [] then [] else [cur])"
| "py_split_from cur (c # cs) =
     (if is_space c then (if cur = [] then py_split_from [] cs else cur # py_split_from [] cs)
      else py_split_from (cur @ [c]) cs)"

definition py_split :: "string \<Rightarrow> string list" where
  "py_split s = py_split_from [] s"

text \<open>
  \<open>compat.Vector\<close> (neurodamus.utils.compat) is not among the source files; with the
  type code "d" it is taken to be an array of doubles, as \<open>array.array\<close> is: appending an
  integer stores its value, appending a string raises TypeError.
\<close>

fun vector_append :: "real list \<Rightarrow> py_value \<Rightarrow> py_error + real list" where
  "vector_append v (PyInt n) = Inr (v @ [of_int n])"
| "vector_append v (PyStr s) = Inl TypeError"

text \<open>
  The loop of \<open>GapJunctionManager.__init__\<close> over the lines of gjinfo.txt. The unpacking
  \<open>gid, offset = ...\<close> raises ValueError unless the line has exactly two fields.
\<close>

fun gj_offsets_loop :: "string list \<Rightarrow> py_value \<Rightarrow> real list \<Rightarrow> py_error + real list" where
  "gj_offsets_loop [] gj_sum gj_offsets = Inr gj_offsets"
| "gj_offsets_loop (line # rest) gj_sum gj_offsets =
     (case py_split (py_strip line) of
        [gid, offset] \<Rightarrow>
          (case vector_append gj_offsets gj_sum of
             Inl e \<Rightarrow> Inl e
           | Inr gj_offsets' \<Rightarrow>
               (case py_mul (PyInt 2) (PyStr offset) of
                  Inl e \<Rightarrow> Inl e
                | Inr twice \<Rightarrow>
                    (case py_add gj_sum twice of
                       Inl e \<Rightarrow> Inl e
                     | Inr gj_sum' \<Rightarrow> gj_offsets_loop rest gj_sum' gj_offsets')))
      | _ \<Rightarrow> Inl ValueError)"

definition gj_offsets_init :: "string list \<Rightarrow> py_error + real list" where
  "gj_offsets_init lines = gj_offsets_loop lines (PyInt 0) []"

section \<open>Synapse parameters and their readers\<close>

text \<open>
  A numpy record array with fields of type f8: the field names of its dtype and the
  rows, each row giving the value of every field. \<open>column\<close> is the attribute access
  \<open>records.name\<close>.
\<close>

type_synonym syn_row = "string \<Rightarrow> real"

record recarray =
  dtype_names :: "string list"
  recs :: "syn_row list"

definition column :: "string \<Rightarrow> recarray \<Rightarrow> real list" where
  "column name ra = map (\<lambda>row. row name) (recs ra)"

definition synapse_fields :: "string list" where
  "synapse_fields =
     [''sgid'', ''delay'', ''isec'', ''ipt'', ''offset'', ''weight'', ''U'', ''D'', ''F'',
      ''DTC'', ''synType'', ''nrrp'', ''u_hill_coefficient'', ''conductance_ratio'',
      ''maskValue'', ''location'']"

definition empty_params :: recarray where
  "empty_params = \<lparr>dtype_names = synapse_fields, recs = []\<rparr>"

text \<open>
  \<open>SynapseParameters.create_array\<close>: \<open>np.recarray\<close> does not initialise its memory;
  \<open>mem i\<close> is what row \<open>i\<close> holds before the three fields are set.
\<close>

definition create_array :: "(nat \<Rightarrow> syn_row) \<Rightarrow> nat \<Rightarrow> recarray" where
  "create_array mem len =
     \<lparr>dtype_names = synapse_fields,
      recs = map (\<lambda>i. (mem i)(''conductance_ratio'' := - 1, ''maskValue'' := - 1,
                              ''location'' := 1 / 2)) [0..<len]\<rparr>"

text \<open>\<open>params[k] = v\<close> on one row of the fixed schema.\<close>

definition set_index :: "nat \<Rightarrow> real \<Rightarrow> syn_row \<Rightarrow> syn_row" where
  "set_index k v row = row(synapse_fields ! k := v)"

text \<open>Python's \<open>int(x)\<close> of a float truncates towards zero; so does the cast to \<open>i4\<close>.\<close>

definition py_int :: "real \<Rightarrow> int" where
  "py_int x = (if 0 \<le> x then \<lfloor>x\<rfloor> else \<lceil>x\<rceil>)"

definition astype_i4 :: "real \<Rightarrow> py_error + int" where
  "astype_i4 x =
     (if - 2147483648 \<le> py_int x \<and> py_int x \<le> 2147483647 then Inr (py_int x)
      else Inl Undefined)"

definition constrained_hill :: "real \<Rightarrow> real \<Rightarrow> real" where
  "constrained_hill K_half y =
     (let K_half_fourth = K_half ^ 4; y_fourth = y ^ 4
      in (K_half_fourth + 16) / 16 * y_fourth / (K_half_fourth + y_fourth))"

text \<open>
  The two backends. The SONATA population is read through libsonata, which is outside
  the model: the reader is given by the attribute names of the population and by the
  record array that its \<open>_load_synapse_parameters\<close> builds for a gid. The legacy reader
  is given by the version and the datasets of the file (for a gid the rows, each a
  function from the column number to the value), the number of files and the memory
  that \<open>create_array\<close> finds.
\<close>

datatype backend =
    SonataReader (attribute_names: "string list") (sonata_params: "gid \<Rightarrow> py_error + recarray")
  | SynReaderNRN (nrn_version: int) (n_synapse_files: int)
      (datasets: "gid \<Rightarrow> (nat \<Rightarrow> real) list option") (fresh_memory: "nat \<Rightarrow> syn_row")

definition SYNAPSE_INDEX_NAMES :: "string list" where
  "SYNAPSE_INDEX_NAMES = [''synapse_index'']"

fun has_property :: "backend \<Rightarrow> string \<Rightarrow> bool" where
  "has_property (SonataReader names load) field_name =
     (if field_name \<in> set SYNAPSE_INDEX_NAMES then True else field_name \<in> set names)"
| "has_property (SynReaderNRN v n d m) field_name = False"

fun has_nrrp :: "backend \<Rightarrow> bool" where
  "has_nrrp (SonataReader names load) = True"
| "has_nrrp (SynReaderNRN v n d m) = (v > 4)"

text \<open>One row of \<open>SynReaderNRN._load_synapse_parameters\<close>.\<close>

definition nrn_row :: "bool \<Rightarrow> (nat \<Rightarrow> real) \<Rightarrow> syn_row \<Rightarrow> syn_row" where
  "nrn_row with_nrrp data params =
     (let params = set_index 0 (data 0) params;
          params = set_index 1 (data 1) params;
          params = set_index 2 (data 2) params;
          params = set_index 3 (data 3) params;
          params = set_index 4 (data 4) params;
          params = set_index 5 (data 8) params;
          params = set_index 6 (data 9) params;
          params = set_index 7 (data 10) params;
          params = set_index 8 (data 11) params;
          params = set_index 9 (data 12) params;
          params = set_index 10 (data 13) params;
          params = (if with_nrrp then set_index 11 (data 17) params
                    else set_index 11 (- 1) params);
          params = set_index 12 (- 1) params;
          params = set_index 13 (- 1) params
      in params)"

fun load_synapse_parameters :: "backend \<Rightarrow> gid \<Rightarrow> py_error + recarray" where
  "load_synapse_parameters (SonataReader names load) gid = load gid"
| "load_synapse_parameters (SynReaderNRN v n d m) gid =
     (case d gid of
        None \<Rightarrow> Inr empty_params
      | Some rows \<Rightarrow>
          (let nrow = length rows in
           if nrow = 0 then Inr empty_params
           else (let conn_syn_params = create_array m nrow
                 in Inr (conn_syn_params
                      \<lparr>recs := map (\<lambda>i. nrn_row (has_nrrp (SynReaderNRN v n d m)) (rows ! i)
                                           (recs conn_syn_params ! i)) [0..<nrow]\<rparr>))))"

text \<open>The state of a \<open>SynapseReader\<close>.\<close>

record reader =
  backend :: backend
  ca_concentration :: "real option"
  syn_params_rd :: "gid \<Rightarrow> recarray option"
  uhill_property_avail :: bool
  extra_fields :: "string list"
  extra_fields_parameters :: "string list option"
  extra_scale_vars :: "string list"

definition new_reader :: "backend \<Rightarrow> real option \<Rightarrow> reader" where
  "new_reader b extracellular_calcium =
     \<lparr>backend = b, ca_concentration = extracellular_calcium, syn_params_rd = (\<lambda>gid. None),
      uhill_property_avail = has_property b ''u_hill_coefficient'',
      extra_fields = [], extra_fields_parameters = None, extra_scale_vars = []\<rparr>"

text \<open>\<open>str.split(sep)\<close> with a separator of one character.\<close>

fun py_split_sep_from :: "char \<Rightarrow> string \<Rightarrow> string \<Rightarrow> string list" where
  "py_split_sep_from sep cur [] = [cur]"
| "py_split_sep_from sep cur (c # cs) =
     (if c = sep then cur # py_split_sep_from sep [] cs
      else py_split_sep_from sep (cur @ [c]) cs)"

definition py_split_sep :: "char \<Rightarrow> string \<Rightarrow> string list" where
  "py_split_sep sep s = py_split_sep_from sep [] s"

text \<open>
  \<open>configure_override\<close>. \<open>Nd.load_hoc\<close> loads the helper of the mod override, which is
  outside the model; \<open>nd\<close> gives the string attributes that \<open>Nd\<close> has afterwards
  (\<open>getattr(Nd, name, None)\<close>). An override that is None or empty changes nothing. The
  class \<open>CustomSynapseParameters\<close> kept in \<open>_extra_fields_parameters\<close> is given by its
  \<open>_synapse_fields\<close>. The scale variables are taken as they are declared: the names are
  not compared with "U", with the fields or with each other.
\<close>

definition configure_override ::
  "string option \<Rightarrow> (string \<Rightarrow> string option) \<Rightarrow> reader \<Rightarrow> reader" where
  "configure_override mod_override nd rd =
     (case mod_override of
        None \<Rightarrow> rd
      | Some m \<Rightarrow>
          if m = [] then rd
          else
            (let override_helper = m @ ''Helper'';
                 rd1 = (case nd (override_helper @ ''_NeededAttributes'') of
                          None \<Rightarrow> rd
                        | Some attr_names \<Rightarrow>
                            if attr_names = [] then rd
                            else rd\<lparr>extra_fields := py_split_sep CHR '';'' attr_names,
                                    extra_fields_parameters :=
                                      Some (py_split_sep CHR '';'' attr_names)\<rparr>)
             in case nd (override_helper @ ''_UHillScaleVariables'') of
                  None \<Rightarrow> rd1
                | Some attr_names \<Rightarrow>
                    if attr_names = [] then rd1
                    else rd1\<lparr>extra_scale_vars := py_split_sep CHR '';'' attr_names\<rparr>))"

text \<open>
  \<open>_patch_delay_fp_inaccuracies\<close>, with the integration step \<open>Nd.dt\<close> as a parameter:
  \<open>records.delay = (records.delay / dt + 1e-5).astype('i4') * dt\<close>.
\<close>

definition patch_delay_row :: "real \<Rightarrow> syn_row \<Rightarrow> py_error + syn_row" where
  "patch_delay_row dt row =
     (if dt = 0 then Inl Undefined
      else (case astype_i4 (row ''delay'' / dt + 1 / 100000) of
              Inl e \<Rightarrow> Inl e
            | Inr k \<Rightarrow> Inr (row(''delay'' := of_int k * dt))))"

fun map_rows :: "('a \<Rightarrow> py_error + 'b) \<Rightarrow> 'a list \<Rightarrow> py_error + 'b list" where
  "map_rows f [] = Inr []"
| "map_rows f (x # xs) =
     (case f x of
        Inl e \<Rightarrow> Inl e
      | Inr y \<Rightarrow> (case map_rows f xs of Inl e \<Rightarrow> Inl e | Inr ys \<Rightarrow> Inr (y # ys)))"

definition patch_delay_fp_inaccuracies :: "real \<Rightarrow> recarray \<Rightarrow> py_error + recarray" where
  "patch_delay_fp_inaccuracies dt records =
     (if length (recs records) = 0 \<or> ''delay'' \<notin> set (dtype_names records) then Inr records
      else (case map_rows (patch_delay_row dt) (recs records) of
              Inl e \<Rightarrow> Inl e
            | Inr rows \<Rightarrow> Inr (records\<lparr>recs := rows\<rparr>)))"

text \<open>
  \<open>_scale_U_param\<close>. The scale factors are computed once, one for each row, before any
  field is changed. Indexing the records by a name that is no field raises ValueError.
\<close>

definition scale_factor :: "real \<Rightarrow> syn_row \<Rightarrow> py_error + real" where
  "scale_factor y row =
     (if row ''u_hill_coefficient'' ^ 4 + y ^ 4 = 0 then Inl Undefined
      else Inr (constrained_hill (row ''u_hill_coefficient'') y))"

definition scale_column :: "string \<Rightarrow> real list \<Rightarrow> syn_row list \<Rightarrow> syn_row list" where
  "scale_column name scale_factors rows =
     map (\<lambda>(row, k). row(name := row name * k)) (zip rows scale_factors)"

fun scale_extra_vars ::
  "string list \<Rightarrow> real list \<Rightarrow> recarray \<Rightarrow> py_error + recarray" where
  "scale_extra_vars [] scale_factors records = Inr records"
| "scale_extra_vars (scale_var # vars) scale_factors records =
     (if scale_var \<notin> set (dtype_names records) then Inl ValueError
      else scale_extra_vars vars scale_factors
             (records\<lparr>recs := scale_column scale_var scale_factors (recs records)\<rparr>))"

definition scale_U_param ::
  "recarray \<Rightarrow> real option \<Rightarrow> string list \<Rightarrow> py_error + recarray" where
  "scale_U_param records extra_cellular_calcium scale_vars =
     (if length (recs records) = 0 then Inr records
      else (case extra_cellular_calcium of
              None \<Rightarrow> Inr records
            | Some y \<Rightarrow>
                (case map_rows (scale_factor y) (recs records) of
                   Inl e \<Rightarrow> Inl e
                 | Inr scale_factors \<Rightarrow>
                     scale_extra_vars scale_vars scale_factors
                       (records\<lparr>recs := scale_column ''U'' scale_factors (recs records)\<rparr>))))"

definition get_synapse_parameters ::
  "reader \<Rightarrow> gid \<Rightarrow> real \<Rightarrow> py_error + (recarray \<times> reader)" where
  "get_synapse_parameters rd gid dt =
     (case syn_params_rd rd gid of
        Some cached \<Rightarrow> Inr (cached, rd)
      | None \<Rightarrow>
          (case load_synapse_parameters (backend rd) gid of
             Inl e \<Rightarrow> Inl e
           | Inr loaded \<Rightarrow>
               (case patch_delay_fp_inaccuracies dt loaded of
                  Inl e \<Rightarrow> Inl e
                | Inr patched \<Rightarrow>
                    (case (if uhill_property_avail rd
                           then scale_U_param patched (ca_concentration rd) (extra_scale_vars rd)
                           else Inr patched) of
                       Inl e \<Rightarrow> Inl e
                     | Inr scaled \<Rightarrow>
                         Inr (scaled, rd\<lparr>syn_params_rd := (syn_params_rd rd)(gid := Some scaled)\<rparr>)))))"

text \<open>A sequence of \<open>get_synapse_parameters\<close> calls on one reader, with all the results.\<close>

fun get_all :: "reader \<Rightarrow> gid list \<Rightarrow> real \<Rightarrow> py_error + (recarray list \<times> reader)" where
  "get_all rd [] dt = Inr ([], rd)"
| "get_all rd (gid # gids) dt =
     (case get_synapse_parameters rd gid dt of
        Inl e \<Rightarrow> Inl e
      | Inr (params, rd1) \<Rightarrow>
          (case get_all rd1 gids dt of
             Inl e \<Rightarrow> Inl e
           | Inr (rest, rd2) \<Rightarrow> Inr (params # rest, rd2)))"

section \<open>Creating the connections of a gid\<close>

text \<open>
  The whole of \<open>_ConnectionManagerBase\<close> that \<open>connect_all\<close> uses: the index, the cache
  \<open>_syn_params\<close>, the datasets of the HDF5 reader (for a gid the rows, each a function from
  the column number to the value), \<open>_nrn_version\<close>, \<open>_circuit_target\<close> (its
  \<open>completeContains\<close>, when a target is set) and the address of the next object created.
  \<open>SynapseParameters\<close> is imported from neurodamus.connection, which is not among the
  source files; its rows are those of the class of the same name in synapse_reader.py,
  whose first twelve fields are the ones that the comments of the loop name.
\<close>

record ('c, 'p) conn_manager = "('c, 'p) manager" +
  syn_params_mgr :: "gid \<Rightarrow> syn_row list option"
  hdf5_datasets :: "gid \<Rightarrow> (nat \<Rightarrow> real) list option"
  nrn_version_mgr :: int
  circuit_target :: "(gid \<Rightarrow> bool) option"
  memory :: "nat \<Rightarrow> syn_row"
  next_ref :: ref

text \<open>
  \<open>params[1] = int(params[1] / dt + 1e-5) * dt\<close>. With \<open>dt = 0\<close> the quotient of a numpy
  float is infinite or not a number, and \<open>int\<close> raises OverflowError or ValueError.
\<close>

definition compensate_delay :: "real \<Rightarrow> real \<Rightarrow> py_error + real" where
  "compensate_delay dt delay =
     (if dt = 0 then (if delay = 0 then Inl ValueError else Inl OverflowError)
      else Inr (of_int (py_int (delay / dt + 1 / 100000)) * dt))"

text \<open>The assignments \<open>params[0]\<close> to \<open>params[11]\<close> of one pass of the loop.\<close>

definition mgr_fields :: "int \<Rightarrow> (nat \<Rightarrow> real) \<Rightarrow> syn_row \<Rightarrow> syn_row" where
  "mgr_fields version data params =
     (let params = set_index 0 (data 0) params;
          params = set_index 1 (data 1) params;
          params = set_index 2 (data 2) params;
          params = set_index 3 (data 3) params;
          params = set_index 4 (data 4) params;
          params = set_index 5 (data 8) params;
          params = set_index 6 (data 9) params;
          params = set_index 7 (data 10) params;
          params = set_index 8 (data 11) params;
          params = set_index 9 (data 12) params;
          params = set_index 10 (data 13) params;
          params = (if version > 4 then set_index 11 (data 17) params
                    else set_index 11 (- 1) params)
      in params)"

text \<open>One pass of the loop: the assignments, then the compensation of the delay.\<close>

definition mgr_row :: "int \<Rightarrow> real \<Rightarrow> (nat \<Rightarrow> real) \<Rightarrow> syn_row \<Rightarrow> py_error + syn_row" where
  "mgr_row version dt data params =
     (let params = mgr_fields version data params
      in case compensate_delay dt (params (synapse_fields ! 1)) of
           Inl e \<Rightarrow> Inl e
         | Inr delay \<Rightarrow> Inr (set_index 1 delay params))"

text \<open>
  The loop \<open>for i in range(nrow)\<close>. It writes into the array, row by row; when the
  compensation of the delay raises in row \<open>i\<close>, the rows before \<open>i\<close> are complete, row
  \<open>i\<close> has its fields assigned and its delay as read, and the rows after \<open>i\<close> are as
  \<open>create_array\<close> left them.
\<close>

fun mgr_fill_rows ::
  "int \<Rightarrow> real \<Rightarrow> (nat \<Rightarrow> real) list \<Rightarrow> nat list \<Rightarrow> syn_row list
     \<Rightarrow> py_error option \<times> syn_row list" where
  "mgr_fill_rows version dt rows [] conn_syn_params = (None, conn_syn_params)"
| "mgr_fill_rows version dt rows (i # rest) conn_syn_params =
     (case mgr_row version dt (rows ! i) (conn_syn_params ! i) of
        Inl e \<Rightarrow>
          (Some e, conn_syn_params[i := mgr_fields version (rows ! i) (conn_syn_params ! i)])
      | Inr params \<Rightarrow> mgr_fill_rows version dt rows rest (conn_syn_params[i := params]))"

text \<open>
  \<open>get_synapse_parameters\<close> of the manager. The array is put into the cache before the
  loop fills it, so the manager is returned with the result also when the loop raises:
  the cache then holds the array as the loop left it, and a later call for the gid
  returns that array.
\<close>

definition mgr_get_synapse_parameters ::
  "real \<Rightarrow> gid \<Rightarrow> ('c, 'p, 'z) conn_manager_scheme
     \<Rightarrow> (py_error + syn_row list) \<times> ('c, 'p, 'z) conn_manager_scheme" where
  "mgr_get_synapse_parameters dt gid st =
     (case syn_params_mgr st gid of
        Some cached \<Rightarrow> (Inr cached, st)
      | None \<Rightarrow>
          (case hdf5_datasets st gid of
             None \<Rightarrow> (Inr [], st\<lparr>syn_params_mgr := (syn_params_mgr st)(gid := Some [])\<rparr>)
           | Some rows \<Rightarrow>
               (let nrow = length rows;
                    conn_syn_params = recs (create_array (memory st) nrow)
                in case mgr_fill_rows (nrn_version_mgr st) dt rows [0..<nrow] conn_syn_params of
                     (Some e, filled) \<Rightarrow>
                       (Inl e, st\<lparr>syn_params_mgr := (syn_params_mgr st)(gid := Some filled)\<rparr>)
                   | (None, filled) \<Rightarrow>
                       (Inr filled,
                        st\<lparr>syn_params_mgr := (syn_params_mgr st)(gid := Some filled)\<rparr>))))"

text \<open>
  The loop of \<open>connect_all\<close> over the rows of one gid, with \<open>cur_conn\<close> and
  \<open>gid_created_conns\<close>. The arguments that stay the same are the weight factor, the
  settings passed to every new \<open>Connection\<close> (None, STDPMode.NO_STDP, 0 and the synapse
  mode) and \<open>locationToPoint\<close> of the target manager. A connection is stored as soon as
  it is created; the synapses are added to the object afterwards.
\<close>

fun connect_rows ::
  "real \<Rightarrow> 'c \<Rightarrow> (gid \<Rightarrow> real \<Rightarrow> real \<Rightarrow> real \<Rightarrow> 'pt) \<Rightarrow> gid \<Rightarrow> (nat \<times> syn_row) list
     \<Rightarrow> ref option \<Rightarrow> nat \<Rightarrow> ('c, 'pt \<times> syn_row \<times> nat, 'z) conn_manager_scheme
     \<Rightarrow> py_error + (nat \<times> ('c, 'pt \<times> syn_row \<times> nat, 'z) conn_manager_scheme)" where
  "connect_rows weight cfg loc t [] cur_conn gid_created_conns st = Inr (gid_created_conns, st)"
| "connect_rows weight cfg loc t ((i, syn_params) # rest) cur_conn gid_created_conns st =
     (let s = py_int (syn_params ''sgid'') in
      if (case circuit_target st of None \<Rightarrow> False | Some complete_contains \<Rightarrow> \<not> complete_contains s)
      then connect_rows weight cfg loc t rest cur_conn gid_created_conns st
      else
        (case (case cur_conn of
                 None \<Rightarrow> None
               | Some c \<Rightarrow> if sgid (heap st c) \<noteq> s then None else Some c) of
           Some c \<Rightarrow>
             connect_rows weight cfg loc t rest (Some c) gid_created_conns
               (st\<lparr>heap := (heap st)
                     (c := add_synapse
                             (loc t (syn_params ''isec'') (syn_params ''ipt'') (syn_params ''offset''),
                              syn_params, i)
                             (heap st c))\<rparr>)
         | None \<Rightarrow>
             (let c = next_ref st;
                  st1 = st\<lparr>heap := (heap st)(c := Connection s t weight cfg),
                            next_ref := Suc c\<rparr>
              in case store_connection c st1 of
                   Inl e \<Rightarrow> Inl e
                 | Inr st2 \<Rightarrow>
                     connect_rows weight cfg loc t rest (Some c) (Suc gid_created_conns)
                       (st2\<lparr>heap := (heap st2)
                              (c := add_synapse
                                      (loc t (syn_params ''isec'') (syn_params ''ipt'')
                                         (syn_params ''offset''),
                                       syn_params, i)
                                      (heap st2 c))\<rparr>))))"

fun connect_gids ::
  "real \<Rightarrow> real \<Rightarrow> 'c \<Rightarrow> (gid \<Rightarrow> real \<Rightarrow> real \<Rightarrow> real \<Rightarrow> 'pt) \<Rightarrow> gid list \<Rightarrow> nat
     \<Rightarrow> ('c, 'pt \<times> syn_row \<times> nat, 'z) conn_manager_scheme
     \<Rightarrow> py_error + (nat \<times> ('c, 'pt \<times> syn_row \<times> nat, 'z) conn_manager_scheme)" where
  "connect_gids dt weight cfg loc [] total_created_conns st = Inr (total_created_conns, st)"
| "connect_gids dt weight cfg loc (t # gidvec) total_created_conns st =
     (case mgr_get_synapse_parameters dt t st of
        (Inl e, st1) \<Rightarrow> Inl e
      | (Inr synapses_params, st1) \<Rightarrow>
          (case connect_rows weight cfg loc t (enumerate 0 synapses_params) None 0 st1 of
             Inl e \<Rightarrow> Inl e
           | Inr (gid_created_conns, st2) \<Rightarrow>
               connect_gids dt weight cfg loc gidvec
                 (if gid_created_conns > 0 then total_created_conns + gid_created_conns
                  else total_created_conns) st2))"

text \<open>\<open>connect_all\<close> returns nothing; the model returns the count that it logs at the end.\<close>

definition connect_all ::
  "real \<Rightarrow> (gid \<Rightarrow> real \<Rightarrow> real \<Rightarrow> real \<Rightarrow> 'pt) \<Rightarrow> 'c \<Rightarrow> gid list \<Rightarrow> real
     \<Rightarrow> ('c, 'pt \<times> syn_row \<times> nat, 'z) conn_manager_scheme
     \<Rightarrow> py_error + (nat \<times> ('c, 'pt \<times> syn_row \<times> nat, 'z) conn_manager_scheme)" where
  "connect_all dt loc cfg gidvec weight st = connect_gids dt weight cfg loc gidvec 0 st"

chapter \<open>Invariants, observations and examples\<close>

text \<open>
  The invariant of the active index. In every bucket the source gids are strictly ascending, and a connection stands in the
  bucket of its own destination gid; the keys of the dictionary are distinct.
\<close>

definition bucket_sorted :: "(ref \<Rightarrow> ('c, 'p) connection) \<Rightarrow> ref list \<Rightarrow> bool" where
  "bucket_sorted h b = sorted_wrt (<) (map (\<lambda>r. sgid (h r)) b)"

definition index_inv :: "('c, 'p, 'z) manager_scheme \<Rightarrow> bool" where
  "index_inv st =
     (distinct (map fst (connections_map st)) \<and>
      (\<forall>(t, b) \<in> set (connections_map st).
         bucket_sorted (heap st) b \<and> (\<forall>r \<in> set b. tgid (heap st r) = t)))"

text \<open>The pair is in the index: its bucket holds a connection with this source gid.\<close>

definition present :: "(ref \<Rightarrow> ('c, 'p) connection) \<Rightarrow> ref odd \<Rightarrow> gid \<Rightarrow> gid \<Rightarrow> bool" where
  "present h d s t = (\<exists>r \<in> set (bucket_of d t). sgid (h r) = s)"

text \<open>
  Examples: objects with the pairs 3->10, 1->10, 2->10 and, from address 3 on, r->20;
  two objects with the same pair 1->10 (and 7->20 at address 2); managers that hold
  some of them.
\<close>

definition example_heap :: "ref \<Rightarrow> (unit, unit) connection" where
  "example_heap r =
     (if r = 0 then Connection 3 10 1 ()
      else if r = 1 then Connection 1 10 1 ()
      else if r = 2 then Connection 2 10 1 ()
      else Connection (int r) 20 1 ())"

definition twin_heap :: "ref \<Rightarrow> (unit, unit) connection" where
  "twin_heap r = (if r = 2 then Connection 7 20 1 () else Connection 1 10 1 ())"

definition twin_manager :: "(unit, unit) manager" where
  "twin_manager =
     \<lparr>heap = twin_heap, connections_map = [(10, [0]), (20, [2])], disabled_conns = [],
      logged = []\<rparr>"

text \<open>The two indices of a manager.\<close>

definition contents :: "('c, 'p, 'z) manager_scheme \<Rightarrow> ref odd \<times> ref odd" where
  "contents st = (connections_map st, disabled_conns st)"

definition pair_manager :: "(unit, unit) manager" where
  "pair_manager =
     \<lparr>heap = example_heap, connections_map = [(10, [1, 2])], disabled_conns = [],
      logged = []\<rparr>"

text \<open>A row with 0 in every field.\<close>

definition zero_row :: syn_row where
  "zero_row name = 0"

text \<open>An example: the dataset of gid 10 cites the sources 1, 2, 1, which is not ascending.\<close>

definition sgid_row :: "real \<Rightarrow> nat \<Rightarrow> real" where
  "sgid_row s col = (if col = 0 then s else 0)"

definition no_point :: "gid \<Rightarrow> real \<Rightarrow> real \<Rightarrow> real \<Rightarrow> unit" where
  "no_point t isec ipt offset = ()"

definition unsorted_manager :: "(unit, unit \<times> syn_row \<times> nat) conn_manager" where
  "unsorted_manager =
     \<lparr>heap = (\<lambda>r. Connection 0 0 1 ()), connections_map = [], disabled_conns = [],
      logged = [], syn_params_mgr = (\<lambda>g. None),
      hdf5_datasets = (\<lambda>g. if g = 10 then Some [sgid_row 1, sgid_row 2, sgid_row 1] else None),
      nrn_version_mgr = 5, circuit_target = None, memory = (\<lambda>i. zero_row), next_ref = 0\<rparr>"

text \<open>
  What is looked at after \<open>connect_all\<close>: the number of connections created, the source
  gids stored in every bucket, the log, and for an object the row numbers of its synapses.
\<close>

definition stored_sgids :: "('c, 'p, 'z) manager_scheme \<Rightarrow> (gid \<times> gid list) list" where
  "stored_sgids st = map (\<lambda>(t, b). (t, map (\<lambda>r. sgid (heap st r)) b)) (connections_map st)"

definition synapse_rows :: "('c, 'pt \<times> syn_row \<times> nat, 'z) manager_scheme \<Rightarrow> ref \<Rightarrow> nat list" where
  "synapse_rows st r = map (\<lambda>(point, params, i). i) (synapses (heap st r))"

definition connect_all_view ::
  "nat \<times> ('c, 'pt \<times> syn_row \<times> nat, 'z) conn_manager_scheme
     \<Rightarrow> nat \<times> ref odd \<times> (gid \<times> gid list) list \<times> log_record list \<times> nat list list" where
  "connect_all_view res =
     (fst res, connections_map (snd res), stored_sgids (snd res), logged (snd res),
      map (synapse_rows (snd res)) [0..<next_ref (snd res)])"

text \<open>Every connection in the active index has an address below the next one to be used.\<close>

definition refs_allocated :: "('c, 'p, 'z) conn_manager_scheme \<Rightarrow> bool" where
  "refs_allocated st = (\<forall>r \<in> set (all_connections st). r < next_ref st)"

text \<open>
  The source gids of the rows that pass the circuit target, in the order of the rows. The
  maximal runs of equal neighbours are counted by \<open>remdups_adj\<close>.
\<close>

definition target_sgids :: "(gid \<Rightarrow> bool) option \<Rightarrow> (nat \<times> syn_row) list \<Rightarrow> gid list" where
  "target_sgids ct rows =
     filter (\<lambda>s. case ct of None \<Rightarrow> True | Some complete_contains \<Rightarrow> complete_contains s)
       (map (\<lambda>(i, syn_params). py_int (syn_params ''sgid'')) rows)"

definition cur_sgid ::
  "('c, 'p, 'z) manager_scheme \<Rightarrow> ref option \<Rightarrow> gid list" where
  "cur_sgid st cur = (case cur of None \<Rightarrow> [] | Some c \<Rightarrow> [sgid (heap st c)])"

text \<open>
  An example: a SONATA population with the attribute u_hill_coefficient and one record
  with U = 0.5, K = 2 and a delay of 0.6875, at a calcium concentration of 1.
\<close>

definition hill_records :: recarray where
  "hill_records =
     \<lparr>dtype_names = synapse_fields,
      recs = [zero_row(''U'' := 1 / 2, ''u_hill_coefficient'' := 2, ''delay'' := 11 / 16)]\<rparr>"

definition hill_params :: "gid \<Rightarrow> py_error + recarray" where
  "hill_params gid = Inr hill_records"

definition hill_reader :: reader where
  "hill_reader = new_reader (SonataReader [''u_hill_coefficient''] hill_params) (Some 1)"

text \<open>
  What the records of a gid look like when the reader returns them: there is one record
  for each record that was loaded, and every field holds the value it has after the
  correction of the delay, multiplied by the scale of its record once for each time the
  field is named among "U" and the scale variables, if the backend reports the hill
  coefficient and a calcium concentration is set; the correction changes the delay only.
\<close>

definition scaled_records :: "reader \<Rightarrow> real \<Rightarrow> gid \<Rightarrow> recarray \<Rightarrow> bool" where
  "scaled_records rd dt gid params =
     (\<exists>loaded patched.
        load_synapse_parameters (backend rd) gid = Inr loaded \<and>
        patch_delay_fp_inaccuracies dt loaded = Inr patched \<and>
        length (recs params) = length (recs loaded) \<and>
        (\<forall>i<length (recs loaded). \<forall>name.
           (recs params ! i) name =
             (if uhill_property_avail rd
              then (case ca_concentration rd of
                      None \<Rightarrow> (recs patched ! i) name
                    | Some y \<Rightarrow>
                        (recs patched ! i) name *
                          (((recs loaded ! i) ''u_hill_coefficient'' ^ 4 + 16) / 16 * y ^ 4 /
                           ((recs loaded ! i) ''u_hill_coefficient'' ^ 4 + y ^ 4))
                          ^ count_list (''U'' # extra_scale_vars rd) name)
              else (recs patched ! i) name) \<and>
           (name \<noteq> ''delay'' \<longrightarrow> (recs patched ! i) name = (recs loaded ! i) name)))"

text \<open>
  A reader that went on from \<open>rd0\<close> by reading: the backend and the configuration are
  those of \<open>rd0\<close>, and the cache holds only records as \<open>rd0\<close> returns them.
\<close>

definition scaling_reader :: "reader \<Rightarrow> real \<Rightarrow> reader \<Rightarrow> bool" where
  "scaling_reader rd0 dt rd =
     (backend rd = backend rd0 \<and> uhill_property_avail rd = uhill_property_avail rd0 \<and>
      ca_concentration rd = ca_concentration rd0 \<and> extra_scale_vars rd = extra_scale_vars rd0 \<and>
      (\<forall>gid params. syn_params_rd rd gid = Some params \<longrightarrow> scaled_records rd0 dt gid params))"

text \<open>
  An example: the helper of the mod override GluSynapse declares "U" itself as a scale
  variable.
\<close>

definition declared_U :: "string \<Rightarrow> string option" where
  "declared_U name =
     (if name = ''GluSynapseHelper_UHillScaleVariables'' then Some ''U'' else None)"

text \<open>
  What the records of a gid look like when they come from the legacy file unscaled:
  one record for each row of the dataset, with the U of the file (column 9) and the
  placeholder -1 in u_hill_coefficient and conductance_ratio.
\<close>

definition legacy_records ::
  "(gid \<Rightarrow> (nat \<Rightarrow> real) list option) \<Rightarrow> gid \<Rightarrow> recarray \<Rightarrow> bool" where
  "legacy_records d gid params =
     (\<forall>i<length (recs params).
        (recs params ! i) ''u_hill_coefficient'' = - 1 \<and>
        (recs params ! i) ''conductance_ratio'' = - 1 \<and>
        (\<exists>rows. d gid = Some rows \<and> i < length rows \<and> (recs params ! i) ''U'' = (rows ! i) 9))"

text \<open>The state of a legacy reader: no scaling, and only legacy records in the cache.\<close>

definition legacy_reader :: "(gid \<Rightarrow> (nat \<Rightarrow> real) list option) \<Rightarrow> reader \<Rightarrow> bool" where
  "legacy_reader d rd =
     ((\<exists>v n m. backend rd = SynReaderNRN v n d m) \<and> \<not> uhill_property_avail rd \<and>
      (\<forall>gid params. syn_params_rd rd gid = Some params \<longrightarrow> legacy_records d gid params))"

text \<open>
  An example: a legacy file of version 5 with one row for gid 10, whose U is 0.3, read
  with a calcium concentration of 2 configured.
\<close>

definition legacy_row :: "nat \<Rightarrow> real" where
  "legacy_row col = (if col = 9 then 3 / 10 else if col = 1 then 1 else 0)"

definition legacy_datasets :: "gid \<Rightarrow> (nat \<Rightarrow> real) list option" where
  "legacy_datasets gid = (if gid = 10 then Some [legacy_row] else None)"

definition zero_memory :: "nat \<Rightarrow> syn_row" where
  "zero_memory i = zero_row"

definition legacy_example :: reader where
  "legacy_example = new_reader (SynReaderNRN 5 1 legacy_datasets zero_memory) (Some 2)"

chapter \<open>Properties\<close>

section \<open>The binary search returns the insertion point\<close>

lemma bin_search_loop_spec:
  assumes "sorted (map f c)" "lo \<le> hi" "hi \<le> length c"
    "\<forall>i<lo. f (c ! i) < k" "\<forall>i. hi \<le> i \<and> i < length c \<longrightarrow> k \<le> f (c ! i)"
  shows "lo \<le> bin_search_loop c k f lo hi \<and> bin_search_loop c k f lo hi \<le> hi \<and>
    (\<forall>i<bin_search_loop c k f lo hi. f (c ! i) < k) \<and>
    (\<forall>i. bin_search_loop c k f lo hi \<le> i \<and> i < length c \<longrightarrow> k \<le> f (c ! i))"
  using assms
proof (induction c k f lo hi rule: bin_search_loop.induct)
  case (1 c k f lo hi)
  show ?case
  proof (cases "lo < hi")
    case False
    with 1(3-) show ?thesis by (subst (1 2 3 4) bin_search_loop.simps) simp
  next
    case True
    define mid where "mid = (lo + hi) div 2"
    have m: "lo \<le> mid" "mid < hi" using True by (auto simp: mid_def)
    have srt: "\<And>i j. i \<le> j \<Longrightarrow> j < length c \<Longrightarrow> f (c ! i) \<le> f (c ! j)"
      using 1(3) by (simp add: sorted_iff_nth_mono)
    show ?thesis
    proof (cases "k > f (c ! mid)")
      case gt: True
      have lo': "\<forall>i<mid + 1. f (c ! i) < k"
      proof (intro allI impI)
        fix i assume "i < mid + 1"
        then have "f (c ! i) \<le> f (c ! mid)" using srt[of i mid] m 1(5) by simp
        then show "f (c ! i) < k" using gt by simp
      qed
      have eq: "bin_search_loop c k f lo hi = bin_search_loop c k f (mid + 1) hi"
        using True gt by (subst bin_search_loop.simps) (simp add: mid_def Let_def)
      show ?thesis unfolding eq
        using 1(1)[OF True mid_def gt 1(3) _ 1(5) lo' 1(7)] m by auto
    next
      case le: False
      have hi': "\<forall>i. mid \<le> i \<and> i < length c \<longrightarrow> k \<le> f (c ! i)"
      proof (intro allI impI)
        fix i assume "mid \<le> i \<and> i < length c"
        then have "f (c ! mid) \<le> f (c ! i)" using srt[of mid i] by simp
        then show "k \<le> f (c ! i)" using le by simp
      qed
      have eq: "bin_search_loop c k f lo hi = bin_search_loop c k f lo mid"
        using True le by (subst bin_search_loop.simps) (simp add: mid_def Let_def)
      show ?thesis unfolding eq
        using 1(2)[OF True mid_def le 1(3) _ _ 1(6) hi'] m 1(5) by auto
    qed
  qed
qed

lemma bin_search_loop_le: "lo \<le> hi \<Longrightarrow> bin_search_loop c k f lo hi \<le> hi"
proof (induction c k f lo hi rule: bin_search_loop.induct)
  case (1 c k f lo hi)
  show ?case
  proof (cases "lo < hi")
    case False
    with 1(3) show ?thesis by (subst bin_search_loop.simps) simp
  next
    case True
    define mid where "mid = (lo + hi) div 2"
    have m: "lo \<le> mid" "mid < hi" using True by (auto simp: mid_def)
    show ?thesis
    proof (cases "k > f (c ! mid)")
      case gt: True
      show ?thesis using 1(1)[OF True mid_def gt] m True gt
        by (subst bin_search_loop.simps) (simp add: mid_def Let_def)
    next
      case le: False
      show ?thesis using 1(2)[OF True mid_def le] m True le
        by (subst bin_search_loop.simps) (simp add: mid_def Let_def)
    qed
  qed
qed

lemma bin_search_le: "bin_search c k f \<le> length c"
  by (simp add: bin_search_def bin_search_loop_le)

lemma bin_search_spec:
  assumes "sorted (map f c)"
  shows "(\<forall>x\<in>set (take (bin_search c k f) c). f x < k) \<and>
         (\<forall>x\<in>set (drop (bin_search c k f) c). k \<le> f x)"
proof -
  let ?p = "bin_search c k f"
  have sp: "(\<forall>i<?p. f (c ! i) < k) \<and> (\<forall>i. ?p \<le> i \<and> i < length c \<longrightarrow> k \<le> f (c ! i))"
    using bin_search_loop_spec[OF assms, of 0 "length c" k] by (simp add: bin_search_def)
  have le: "?p \<le> length c" by (rule bin_search_le)
  show ?thesis
  proof (intro conjI ballI)
    fix x assume "x \<in> set (take ?p c)"
    then obtain i where "i < ?p" "x = c ! i" using le
      by (auto simp: in_set_conv_nth)
    then show "f x < k" using sp by simp
  next
    fix x assume "x \<in> set (drop ?p c)"
    then obtain i where "i < length c - ?p" "x = c ! (?p + i)" using le
      by (auto simp: in_set_conv_nth)
    then show "k \<le> f x" using sp by simp
  qed
qed

section \<open>Reading and changing a bucket\<close>

lemma bin_search_Nil: "bin_search [] k f = 0"
  by (simp add: bin_search_def bin_search_loop.simps)

lemma odd_getitem_fst: "fst (odd_getitem d k) = bucket_of d k"
  by (simp add: odd_getitem_def bucket_of_def split: option.splits)

lemma odd_getitem_present:
  "map_of d k = Some v \<Longrightarrow> odd_getitem d k = (v, d)"
  by (simp add: odd_getitem_def)

lemma odd_getitem_missing:
  "map_of d k = None \<Longrightarrow> odd_getitem d k = ([], d @ [(k, [])])"
  by (simp add: odd_getitem_def)

lemma odd_getitem_snd_map_of:
  "map_of (snd (odd_getitem d k)) k = Some (bucket_of d k)"
proof (cases "map_of d k")
  case None
  then show ?thesis by (simp add: odd_getitem_def bucket_of_def map_add_def)
next
  case (Some v)
  then show ?thesis by (simp add: odd_getitem_def bucket_of_def)
qed

lemma odd_getitem_snd_bucket:
  "bucket_of (snd (odd_getitem d k)) k' = bucket_of d k'"
proof (cases "map_of d k")
  case None
  then show ?thesis
    by (cases "map_of d k'") (auto simp: odd_getitem_def bucket_of_def map_add_def)
next
  case (Some v)
  then show ?thesis by (simp add: odd_getitem_def)
qed

lemma odd_getitem_snd_concat:
  "concat (map snd (snd (odd_getitem d k))) = concat (map snd d)"
  by (simp add: odd_getitem_def split: option.splits)

lemma odd_getitem_snd_distinct:
  "distinct (map fst d) \<Longrightarrow> distinct (map fst (snd (odd_getitem d k)))"
  by (auto simp: odd_getitem_def map_of_eq_None_iff split: option.splits)

lemma odd_getitem_snd_set:
  "set (snd (odd_getitem d k)) = (if map_of d k = None then insert (k, []) (set d) else set d)"
  by (auto simp: odd_getitem_def split: option.splits)

lemma odd_put_bucket:
  "bucket_of (odd_put d k v) k' = (if k' = k then v else bucket_of d k')"
  by (simp add: odd_put_def bucket_of_def update_conv')

lemma odd_put_distinct:
  "distinct (map fst d) \<Longrightarrow> distinct (map fst (odd_put d k v))"
  by (simp add: odd_put_def distinct_update)

lemma odd_put_mset:
  "distinct (map fst d) \<Longrightarrow> map_of d k = Some b \<Longrightarrow>
   mset (concat (map snd (odd_put d k v))) + mset b = mset (concat (map snd d)) + mset v"
proof (induction d)
  case Nil
  then show ?case by simp
next
  case (Cons a d)
  obtain k' b' where a: "a = (k', b')" by (cases a)
  show ?case
  proof (cases "k' = k")
    case True
    with Cons a show ?thesis by (simp add: odd_put_def)
  next
    case False
    with Cons a show ?thesis by (simp add: odd_put_def)
  qed
qed

lemma odd_put_set:
  "distinct (map fst d) \<Longrightarrow> map_of d k = Some b \<Longrightarrow>
   set (odd_put d k v) = insert (k, v) (set d - {(k, b)})"
proof (induction d)
  case Nil
  then show ?case by simp
next
  case (Cons a d)
  obtain k' b' where a: "a = (k', b')" by (cases a)
  show ?case
  proof (cases "k' = k")
    case True
    with Cons a show ?thesis by (auto simp: odd_put_def image_iff)
  next
    case False
    with Cons a show ?thesis by (auto simp: odd_put_def)
  qed
qed

lemma bucket_of_in_set:
  "distinct (map fst d) \<Longrightarrow> (k, b) \<in> set d \<Longrightarrow> bucket_of d k = b"
  by (simp add: bucket_of_def)

lemma bucket_of_subset_concat: "set (bucket_of d k) \<subseteq> set (concat (map snd d))"
proof (cases "map_of d k")
  case None
  then show ?thesis by (simp add: bucket_of_def)
next
  case (Some v)
  then have "(k, v) \<in> set d" by (rule map_of_SomeD)
  then show ?thesis using Some by (force simp: bucket_of_def)
qed

section \<open>The invariant of the active index\<close>

lemma index_inv_bucket:
  "index_inv st \<Longrightarrow> bucket_sorted (heap st) (bucket_of (connections_map st) t)"
proof (cases "map_of (connections_map st) t")
  case None
  then show ?thesis by (simp add: bucket_of_def bucket_sorted_def)
next
  case (Some b)
  assume inv: "index_inv st"
  from Some have "(t, b) \<in> set (connections_map st)" by (rule map_of_SomeD)
  with inv have "bucket_sorted (heap st) b" by (auto simp: index_inv_def)
  with Some show ?thesis by (simp add: bucket_of_def)
qed

lemma index_inv_tgid:
  "index_inv st \<Longrightarrow> r \<in> set (bucket_of (connections_map st) t) \<Longrightarrow> tgid (heap st r) = t"
proof (cases "map_of (connections_map st) t")
  case None
  assume "r \<in> set (bucket_of (connections_map st) t)"
  with None show ?thesis by (simp add: bucket_of_def)
next
  case (Some b)
  assume inv: "index_inv st" and r: "r \<in> set (bucket_of (connections_map st) t)"
  from Some have "(t, b) \<in> set (connections_map st)" by (rule map_of_SomeD)
  with inv have "\<forall>r \<in> set b. tgid (heap st r) = t" by (auto simp: index_inv_def)
  with Some r show ?thesis by (simp add: bucket_of_def)
qed

text \<open>In a sorted bucket the search finds a present source gid, and only a present one.\<close>

lemma bin_search_hit:
  assumes "bucket_sorted h b"
  shows "(\<exists>r \<in> set b. sgid (h r) = s) \<longleftrightarrow>
         (bin_search b s (\<lambda>x. sgid (h x)) < length b \<and>
          sgid (h (b ! bin_search b s (\<lambda>x. sgid (h x)))) = s)"
proof -
  let ?f = "\<lambda>x. sgid (h x)"
  let ?p = "bin_search b s ?f"
  have st: "sorted_wrt (<) (map ?f b)" using assms by (simp add: bucket_sorted_def)
  then have "sorted (map ?f b)" by (rule strict_sorted_imp_sorted)
  then have sp: "\<forall>x\<in>set (take ?p b). ?f x < s" "\<forall>x\<in>set (drop ?p b). s \<le> ?f x"
    using bin_search_spec[of ?f b s] by auto
  show ?thesis
  proof
    assume "\<exists>r \<in> set b. sgid (h r) = s"
    then obtain r where r: "r \<in> set b" "?f r = s" by auto
    have "r \<in> set (take ?p b) \<or> r \<in> set (drop ?p b)"
      using r(1) by (metis Un_iff append_take_drop_id set_append)
    with sp r(2) have rd: "r \<in> set (drop ?p b)" by auto
    then have lt: "?p < length b" by (cases "?p < length b") auto
    have hd: "drop ?p b = b ! ?p # drop (Suc ?p) b" using lt by (simp add: Cons_nth_drop_Suc)
    have "sorted_wrt (<) (map ?f (drop ?p b))" using st by (simp add: drop_map[symmetric])
    then have tl: "\<forall>x\<in>set (drop (Suc ?p) b). ?f (b ! ?p) < ?f x"
      by (subst (asm) hd) simp
    have "s \<le> ?f (b ! ?p)" using sp(2) hd by simp
    with tl r(2) rd hd have "r = b ! ?p" by auto
    with r(2) lt show "?p < length b \<and> sgid (h (b ! ?p)) = s" by simp
  next
    assume "?p < length b \<and> sgid (h (b ! ?p)) = s"
    then show "\<exists>r \<in> set b. sgid (h r) = s" by (auto intro: bexI[of _ "b ! ?p"])
  qed
qed

lemma bin_search_insert_sorted:
  assumes "bucket_sorted h b" "\<not> (\<exists>r \<in> set b. sgid (h r) = sgid (h c))"
  shows "bucket_sorted h (py_insert b (bin_search b (sgid (h c)) (\<lambda>x. sgid (h x))) c)"
proof -
  let ?f = "\<lambda>x. sgid (h x)"
  let ?p = "bin_search b (?f c) ?f"
  have st: "sorted_wrt (<) (map ?f b)" using assms by (simp add: bucket_sorted_def)
  then have "sorted (map ?f b)" by (rule strict_sorted_imp_sorted)
  then have sp: "\<forall>x\<in>set (take ?p b). ?f x < ?f c" "\<forall>x\<in>set (drop ?p b). ?f c \<le> ?f x"
    using bin_search_spec[of ?f b "?f c"] by auto
  have gt: "\<forall>x\<in>set (drop ?p b). ?f c < ?f x"
  proof
    fix x assume x: "x \<in> set (drop ?p b)"
    then have "x \<in> set b" by (rule in_set_dropD)
    with assms(2) have "?f x \<noteq> ?f c" by auto
    with sp(2) x show "?f c < ?f x" by force
  qed
  have "sorted_wrt (<) (take ?p (map ?f b))" "sorted_wrt (<) (drop ?p (map ?f b))"
    using st by simp_all
  then have "sorted_wrt (<) (map ?f (take ?p b))" "sorted_wrt (<) (map ?f (drop ?p b))"
    by (simp_all add: take_map drop_map)
  then have "sorted_wrt (<) (map ?f (take ?p b) @ ?f c # map ?f (drop ?p b))"
    using sp(1) gt by (fastforce simp: sorted_wrt_append)
  then show ?thesis by (simp add: bucket_sorted_def py_insert_def)
qed

lemma py_insert_set: "set (py_insert b i c) = insert c (set b)"
proof -
  have "set (take i b) \<union> set (drop i b) = set b"
    by (metis append_take_drop_id set_append)
  then show ?thesis by (auto simp: py_insert_def)
qed

lemma py_insert_mset: "mset (py_insert b i c) = add_mset c (mset b)"
proof -
  have "mset (take i b) + mset (drop i b) = mset b"
    by (metis append_take_drop_id mset_append)
  then show ?thesis by (simp add: py_insert_def)
qed

section \<open>What the index operations compute\<close>

lemma find_connection_inexact:
  "find_connection s t False st =
     Inr (bucket_of (connections_map st) t,
          Some (bin_search (bucket_of (connections_map st) t) s (\<lambda>x. sgid (heap st x))),
          st\<lparr>connections_map := snd (odd_getitem (connections_map st) t)\<rparr>)"
  by (simp add: find_connection_def split_beta Let_def odd_getitem_fst bin_search_Nil)

lemma find_connection_exact:
  "find_connection s t True st =
     Inr (bucket_of (connections_map st) t,
          (let b = bucket_of (connections_map st) t;
               p = bin_search b s (\<lambda>x. sgid (heap st x))
           in if p < length b \<and> sgid (heap st (b ! p)) = s then Some p else None),
          st\<lparr>connections_map := snd (odd_getitem (connections_map st) t)\<rparr>)"
proof -
  let ?b = "bucket_of (connections_map st) t"
  let ?p = "bin_search ?b s (\<lambda>x. sgid (heap st x))"
  have "?p \<le> length ?b" by (rule bin_search_le)
  then show ?thesis
    by (auto simp: find_connection_def split_beta Let_def odd_getitem_fst bin_search_Nil
        py_getitem_def)
qed

lemma store_connection_eq:
  "store_connection c st =
     (let s = sgid (heap st c); t = tgid (heap st c);
          b = bucket_of (connections_map st) t;
          p = bin_search b s (\<lambda>x. sgid (heap st x));
          st' = st\<lparr>connections_map := snd (odd_getitem (connections_map st) t)\<rparr>
      in if p < length b \<and> sgid (heap st (b ! p)) = s
         then Inr (log_msg ERROR ''Attempt to store existing connection: %d->%d'' [s, t] st')
         else Inr (st'\<lparr>connections_map :=
                        odd_put (snd (odd_getitem (connections_map st) t)) t (py_insert b p c)\<rparr>))"
  by (simp add: store_connection_def find_connection_inexact Let_def py_getitem_def)

text \<open>Storing a pair that is present: the error is logged and nothing else changes.\<close>

lemma store_connection_present:
  assumes "index_inv st"
    "present (heap st) (connections_map st) (sgid (heap st c)) (tgid (heap st c))"
  shows "store_connection c st =
           Inr (log_msg ERROR ''Attempt to store existing connection: %d->%d''
                  [sgid (heap st c), tgid (heap st c)] st)"
proof -
  let ?t = "tgid (heap st c)"
  let ?s = "sgid (heap st c)"
  let ?b = "bucket_of (connections_map st) ?t"
  have srt: "bucket_sorted (heap st) ?b" using assms(1) by (rule index_inv_bucket)
  have ex: "\<exists>r \<in> set ?b. sgid (heap st r) = ?s" using assms(2) by (simp add: present_def)
  then have hit: "bin_search ?b ?s (\<lambda>x. sgid (heap st x)) < length ?b \<and>
      sgid (heap st (?b ! bin_search ?b ?s (\<lambda>x. sgid (heap st x)))) = ?s"
    using bin_search_hit[OF srt, of ?s] by simp
  from ex have "?b \<noteq> []" by auto
  then obtain v where "map_of (connections_map st) ?t = Some v"
    by (auto simp: bucket_of_def split: option.splits)
  then have "snd (odd_getitem (connections_map st) ?t) = connections_map st"
    by (simp add: odd_getitem_present)
  then show ?thesis using hit by (simp add: store_connection_eq Let_def)
qed

text \<open>Storing a pair that is absent: the connection enters its bucket, which stays sorted.\<close>

lemma store_connection_absent:
  assumes "index_inv st"
    "\<not> present (heap st) (connections_map st) (sgid (heap st c)) (tgid (heap st c))"
  shows "\<exists>st'. store_connection c st = Inr st' \<and> index_inv st' \<and> heap st' = heap st \<and>
           disabled_conns st' = disabled_conns st \<and> logged st' = logged st \<and>
           mset (all_connections st') = add_mset c (mset (all_connections st)) \<and>
           (\<forall>k. set (bucket_of (connections_map st') k) =
                (if k = tgid (heap st c) then insert c (set (bucket_of (connections_map st) k))
                 else set (bucket_of (connections_map st) k)))"
proof -
  let ?t = "tgid (heap st c)"
  let ?s = "sgid (heap st c)"
  let ?cm = "connections_map st"
  let ?b = "bucket_of ?cm ?t"
  let ?p = "bin_search ?b ?s (\<lambda>x. sgid (heap st x))"
  let ?cm1 = "snd (odd_getitem ?cm ?t)"
  let ?cm2 = "odd_put ?cm1 ?t (py_insert ?b ?p c)"
  let ?st' = "st\<lparr>connections_map := ?cm2\<rparr>"
  have srt: "bucket_sorted (heap st) ?b" using assms(1) by (rule index_inv_bucket)
  have nex: "\<not> (\<exists>r \<in> set ?b. sgid (heap st r) = ?s)" using assms(2) by (simp add: present_def)
  then have miss: "\<not> (?p < length ?b \<and> sgid (heap st (?b ! ?p)) = ?s)"
    using bin_search_hit[OF srt, of ?s] by simp
  have eq: "store_connection c st = Inr ?st'"
    unfolding store_connection_eq Let_def by (simp only: miss if_False) simp
  have d0: "distinct (map fst ?cm)" using assms(1) by (simp add: index_inv_def)
  then have d1: "distinct (map fst ?cm1)" by (rule odd_getitem_snd_distinct)
  have m1: "map_of ?cm1 ?t = Some ?b" by (rule odd_getitem_snd_map_of)
  have set2: "set ?cm2 = insert (?t, py_insert ?b ?p c) (set ?cm1 - {(?t, ?b)})"
    using odd_put_set[OF d1 m1] .
  have sub1: "set ?cm1 \<subseteq> insert (?t, []) (set ?cm)"
    by (auto simp: odd_getitem_snd_set split: if_splits)
  have new_sorted: "bucket_sorted (heap st) (py_insert ?b ?p c)"
    using bin_search_insert_sorted[OF srt nex] .
  have old: "\<forall>r \<in> set ?b. tgid (heap st r) = ?t"
    using index_inv_tgid[OF assms(1)] by blast
  have inv': "index_inv ?st'"
    unfolding index_inv_def
  proof (intro conjI ballI)
    show "distinct (map fst (connections_map ?st'))"
      using d1 by (simp add: odd_put_distinct)
  next
    fix x assume "x \<in> set (connections_map ?st')"
    then have x: "x = (?t, py_insert ?b ?p c) \<or> x = (?t, []) \<or> x \<in> set ?cm"
      using set2 sub1 by auto
    show "case x of (t, b) \<Rightarrow>
            bucket_sorted (heap ?st') b \<and> (\<forall>r \<in> set b. tgid (heap ?st' r) = t)"
      using x new_sorted old assms(1)
      by (auto simp: index_inv_def py_insert_set bucket_sorted_def)
  qed
  have ms: "mset (all_connections ?st') = add_mset c (mset (all_connections st))"
    using odd_put_mset[OF d1 m1, of "py_insert ?b ?p c"]
    by (simp add: all_connections_def odd_values_def odd_getitem_snd_concat py_insert_mset)
  have bk: "\<forall>k. set (bucket_of (connections_map ?st') k) =
                (if k = ?t then insert c (set (bucket_of ?cm k)) else set (bucket_of ?cm k))"
    by (simp add: odd_put_bucket odd_getitem_snd_bucket py_insert_set)
  show ?thesis using eq inv' ms bk by simp
qed

section \<open>Sequences of store_connection calls\<close>

lemma new_manager_inv: "index_inv (new_manager h)"
  by (simp add: index_inv_def new_manager_def)




lemma store_all_example:
  "map_sum id connections_map (store_all [0, 1, 2, 3] (new_manager example_heap)) =
     Inr [(10, [1, 2, 0]), (20, [3])]"
  by (simp add: store_connection_eq new_manager_def example_heap_def Connection_def Let_def
      bucket_of_def odd_getitem_def odd_put_def py_insert_def bin_search_def
      bin_search_loop.simps log_msg_def)

section \<open>Storing a duplicate, deleting a missing pair\<close>

text \<open>
  C2. In an index whose buckets are ordered, which is every index that calls on a new
  manager lead to (\<open>reachable_index_inv\<close> below), storing a connection whose
  (sgid, tgid) pair is already present raises nothing, logs the error and changes nothing
  else: the active map (so the bucket, its size and the connection stored in it), the
  objects and the disabled map are the same as before.
\<close>

theorem store_connection_duplicate_noop:
  assumes "index_inv st"
    "present (heap st) (connections_map st) (sgid (heap st c)) (tgid (heap st c))"
  shows "\<exists>st'. store_connection c st = Inr st' \<and>
           connections_map st' = connections_map st \<and>
           heap st' = heap st \<and>
           disabled_conns st' = disabled_conns st \<and>
           logged st' = logged st @
             [(ERROR, ''Attempt to store existing connection: %d->%d'',
               [sgid (heap st c), tgid (heap st c)])]"
  using store_connection_present[OF assms] by (simp add: log_msg_def)

theorem store_connection_duplicate_noop_witness:
  "index_inv twin_manager \<and>
   present (heap twin_manager) (connections_map twin_manager)
     (sgid (heap twin_manager 1)) (tgid (heap twin_manager 1)) \<and>
   (\<exists>st'. store_connection 1 twin_manager = Inr st' \<and>
      connections_map st' = connections_map twin_manager \<and>
      heap st' = heap twin_manager \<and>
      disabled_conns st' = disabled_conns twin_manager \<and>
      logged st' = logged twin_manager @
        [(ERROR, ''Attempt to store existing connection: %d->%d'',
          [sgid (heap twin_manager 1), tgid (heap twin_manager 1)])])"
proof -
  have i: "index_inv twin_manager"
    by (simp add: index_inv_def twin_manager_def twin_heap_def Connection_def bucket_sorted_def)
  have p: "present (heap twin_manager) (connections_map twin_manager)
     (sgid (heap twin_manager 1)) (tgid (heap twin_manager 1))"
    by (simp add: present_def twin_manager_def twin_heap_def Connection_def bucket_of_def)
  show ?thesis using i p store_connection_duplicate_noop[OF i p] by blast
qed

lemma delete_eq:
  "delete s t st =
     (let b = bucket_of (connections_map st) t;
          p = bin_search b s (\<lambda>x. sgid (heap st x));
          st' = st\<lparr>connections_map := snd (odd_getitem (connections_map st) t)\<rparr>
      in if p < length b \<and> sgid (heap st (b ! p)) = s
         then Inr (st'\<lparr>connections_map :=
                        odd_put (snd (odd_getitem (connections_map st) t)) t
                          (take p b @ drop (Suc p) b)\<rparr>)
         else Inr (log_msg WARNING ''Non-existing connection to disable: %d->%d'' [s, t] st'))"
  by (simp add: delete_def find_connection_exact Let_def py_del_def)

lemma disable_eq:
  "disable s t z st =
     (let b = bucket_of (connections_map st) t;
          p = bin_search b s (\<lambda>x. sgid (heap st x));
          st' = st\<lparr>connections_map := snd (odd_getitem (connections_map st) t)\<rparr>
      in if p < length b \<and> sgid (heap st (b ! p)) = s
         then Inr (st\<lparr>connections_map :=
                         odd_put (snd (odd_getitem (connections_map st) t)) t
                           (take p b @ drop (Suc p) b),
                       disabled_conns :=
                         odd_put (snd (odd_getitem (disabled_conns st) t)) t
                           (bucket_of (disabled_conns st) t @ [b ! p]),
                       heap := (heap st)(b ! p := conn_disable z (heap st (b ! p)))\<rparr>)
         else Inr (log_msg WARNING ''Non-existing connection to disable: %d->%d'' [s, t] st'))"
  by (simp add: disable_def find_connection_exact Let_def py_pop_def split_beta odd_getitem_fst)

lemma absent_miss:
  assumes "\<not> present h d s t"
  shows "\<not> (bin_search (bucket_of d t) s f < length (bucket_of d t) \<and>
            sgid (h (bucket_of d t ! bin_search (bucket_of d t) s f)) = s)"
  using assms by (auto simp: present_def)

text \<open>
  C8 as amended. Deleting a pair that is not in the active index raises nothing and
  logs the warning. No connection is added, removed or moved: every bucket,
  all_connections(), the objects and the disabled map are as before. The active map
  itself is the same when the destination gid has a bucket; when it has none, the read
  of the map in _find_connection leaves an empty bucket for it at the end.
\<close>

theorem delete_absent:
  assumes "\<not> present (heap st) (connections_map st) s t"
  shows "\<exists>st'. delete s t st = Inr st' \<and>
           heap st' = heap st \<and>
           disabled_conns st' = disabled_conns st \<and>
           all_connections st' = all_connections st \<and>
           (\<forall>k. bucket_of (connections_map st') k = bucket_of (connections_map st) k) \<and>
           connections_map st' =
             (if t \<in> fst ` set (connections_map st) then connections_map st
              else connections_map st @ [(t, [])]) \<and>
           logged st' = logged st @
             [(WARNING, ''Non-existing connection to disable: %d->%d'', [s, t])]"
proof -
  let ?cm = "connections_map st"
  let ?st' = "log_msg WARNING ''Non-existing connection to disable: %d->%d'' [s, t]
                (st\<lparr>connections_map := snd (odd_getitem ?cm t)\<rparr>)"
  have eq: "delete s t st = Inr ?st'"
    unfolding delete_eq Let_def by (simp only: absent_miss[OF assms] if_False)
  have cm: "snd (odd_getitem ?cm t) = (if t \<in> fst ` set ?cm then ?cm else ?cm @ [(t, [])])"
  proof (cases "map_of ?cm t")
    case None
    then have "t \<notin> fst ` set ?cm" by (simp add: map_of_eq_None_iff)
    with None show ?thesis by (simp add: odd_getitem_def)
  next
    case (Some v)
    then have "t \<in> fst ` set ?cm" by (meson domI dom_map_of_conv_image_fst[THEN equalityD1, THEN subsetD])
    with Some show ?thesis by (simp add: odd_getitem_def)
  qed
  show ?thesis
    unfolding eq
    by (simp add: log_msg_def all_connections_def odd_values_def odd_getitem_snd_concat
        odd_getitem_snd_bucket cm[symmetric])
qed

theorem delete_absent_witness:
  "\<not> present (heap twin_manager) (connections_map twin_manager) 5 10 \<and>
   (\<exists>st'. delete 5 10 twin_manager = Inr st' \<and>
      heap st' = heap twin_manager \<and>
      disabled_conns st' = disabled_conns twin_manager \<and>
      all_connections st' = all_connections twin_manager \<and>
      (\<forall>k. bucket_of (connections_map st') k = bucket_of (connections_map twin_manager) k) \<and>
      connections_map st' =
        (if 10 \<in> fst ` set (connections_map twin_manager) then connections_map twin_manager
         else connections_map twin_manager @ [(10, [])]) \<and>
      logged st' = logged twin_manager @
        [(WARNING, ''Non-existing connection to disable: %d->%d'', [5, 10])])"
proof -
  have p: "\<not> present (heap twin_manager) (connections_map twin_manager) 5 10"
    by (simp add: present_def twin_manager_def twin_heap_def Connection_def bucket_of_def)
  show ?thesis using p delete_absent[OF p] by blast
qed

text \<open>
  C8 as stated fails where the destination gid has no bucket: deleting 1->5 from a new
  manager leaves the active map with an empty bucket for gid 5.
\<close>

theorem delete_absent_changes_map:
  "connections_map (new_manager example_heap) = [] \<and>
   map_sum id connections_map (delete 1 5 (new_manager example_heap)) = Inr [(5, [])]"
  by (simp add: delete_eq new_manager_def Let_def bucket_of_def odd_getitem_def
      bin_search_Nil log_msg_def)

section \<open>Disable followed by enable\<close>

lemma bin_search_split:
  assumes "sorted (map f (xs @ ys))" "\<forall>x\<in>set xs. f x < k" "\<forall>y\<in>set ys. k \<le> f y"
  shows "bin_search (xs @ ys) k f = length xs"
proof -
  let ?q = "bin_search (xs @ ys) k f"
  have sp: "\<forall>x\<in>set (take ?q (xs @ ys)). f x < k" "\<forall>x\<in>set (drop ?q (xs @ ys)). k \<le> f x"
    using bin_search_spec[OF assms(1), of k] by auto
  have le: "?q \<le> length (xs @ ys)" by (rule bin_search_le)
  have "\<not> ?q < length xs"
  proof
    assume lt: "?q < length xs"
    then have "xs ! ?q \<in> set (drop ?q (xs @ ys))"
      by (simp add: in_set_conv_nth) (metis add.right_neutral add_diff_cancel_left' le_add_diff_inverse less_imp_le_nat zero_less_diff)
    then have "k \<le> f (xs ! ?q)" using sp(2) by blast
    moreover have "f (xs ! ?q) < k" using assms(2) lt by simp
    ultimately show False by simp
  qed
  moreover have "\<not> length xs < ?q"
  proof
    assume gt: "length xs < ?q"
    then have ne: "ys \<noteq> []" using le by auto
    have "(xs @ ys) ! length xs \<in> set (take ?q (xs @ ys))"
      using gt le by (metis in_set_conv_nth length_take min.absorb2 nth_take)
    then have "f ((xs @ ys) ! length xs) < k" using sp(1) by blast
    moreover have "(xs @ ys) ! length xs = hd ys" using ne by (simp add: hd_conv_nth nth_append)
    moreover have "k \<le> f (hd ys)" using assms(3) ne by simp
    ultimately show False by simp
  qed
  ultimately show ?thesis by simp
qed

lemma enumerate_find_snoc:
  "\<forall>y\<in>set xs. \<not> P y \<Longrightarrow> P x \<Longrightarrow> enumerate_find P i (xs @ [x]) = Some (i + length xs, x)"
  by (induction xs arbitrary: i) auto

lemma odd_put_twice: "odd_put (odd_put d k v) k w = odd_put d k w"
  by (simp add: odd_put_def)

lemma odd_put_same: "map_of d k = Some v \<Longrightarrow> odd_put d k v = d"
  by (simp add: odd_put_def update_triv)

lemma odd_put_map_of: "map_of (odd_put d k v) k = Some v"
  by (simp add: odd_put_def update_conv')

lemma odd_put_getitem: "odd_getitem (odd_put d k v) k = (v, odd_put d k v)"
  by (simp add: odd_getitem_def odd_put_map_of)

lemma enable_eq:
  "enable s t st =
     (let dis = bucket_of (disabled_conns st) t;
          st1 = st\<lparr>disabled_conns := snd (odd_getitem (disabled_conns st) t)\<rparr>
      in case enumerate_find (\<lambda>c. sgid (heap st c) = s) 0 dis of
           None \<Rightarrow>
             Inr (log_msg WARNING ''Non-existing connection to enable: %d->%d'' [s, t] st1)
         | Some (i, c) \<Rightarrow>
             (case store_connection c st1 of
                Inl e \<Rightarrow> Inl e
              | Inr st2 \<Rightarrow>
                  (case py_del dis i of
                     Inl e \<Rightarrow> Inl e
                   | Inr lst' \<Rightarrow>
                       Inr (st2\<lparr>disabled_conns := odd_put (disabled_conns st2) t lst',
                                heap := (heap st2)(c := conn_enable (heap st2 c))\<rparr>))))"
  by (simp add: enable_def split_beta Let_def odd_getitem_fst
      split: option.splits sum.splits)

lemma sgid_conn_disable: "sgid (conn_disable z c) = sgid c"
  by (simp add: conn_disable_def)

lemma tgid_conn_disable: "tgid (conn_disable z c) = tgid c"
  by (simp add: conn_disable_def)

lemma conn_enable_disable: "conn_enable (conn_disable z c) = c\<lparr>disabled := False\<rparr>"
  by (simp add: conn_enable_def conn_disable_def)

text \<open>
  C3 as amended. A connection c with source s stands in the active bucket of t, the
  buckets are ordered, and the disabled index holds no connection s->t. Then disable(s,t)
  and enable(s,t) raise nothing and log nothing; in between, the pair is in the disabled
  index and not in the active one; at the end the active map is the one before disable,
  c has the content it had (with its disabled flag cleared), and every bucket of the
  disabled index holds what it held before, so the pair is in the active index only.
\<close>

theorem disable_enable_restores:
  assumes "index_inv st" "c \<in> set (bucket_of (connections_map st) t)" "sgid (heap st c) = s"
    "\<not> present (heap st) (disabled_conns st) s t"
  shows "\<exists>st1 st2. disable s t z st = Inr st1 \<and> enable s t st1 = Inr st2 \<and>
           \<not> present (heap st1) (connections_map st1) s t \<and>
           c \<in> set (bucket_of (disabled_conns st1) t) \<and>
           connections_map st2 = connections_map st \<and>
           heap st2 = (heap st)(c := (heap st c)\<lparr>disabled := False\<rparr>) \<and>
           \<not> present (heap st2) (disabled_conns st2) s t \<and>
           (\<forall>k. bucket_of (disabled_conns st2) k = bucket_of (disabled_conns st) k) \<and>
           logged st2 = logged st"
proof -
  let ?h = "heap st"
  let ?f = "\<lambda>x. sgid (?h x)"
  let ?cm = "connections_map st"
  let ?dm = "disabled_conns st"
  let ?b = "bucket_of ?cm t"
  let ?p = "bin_search ?b s ?f"
  let ?dis = "bucket_of ?dm t"
  let ?dm1 = "snd (odd_getitem ?dm t)"
  let ?b' = "take ?p ?b @ drop (Suc ?p) ?b"
  let ?h1 = "?h(c := conn_disable z (?h c))"
  let ?st1 = "st\<lparr>connections_map := odd_put ?cm t ?b',
                 disabled_conns := odd_put ?dm1 t (?dis @ [c]), heap := ?h1\<rparr>"
  let ?h2 = "?h(c := (?h c)\<lparr>disabled := False\<rparr>)"
  let ?st2 = "st\<lparr>disabled_conns := ?dm1, heap := ?h2\<rparr>"
  have srt: "bucket_sorted ?h ?b" using assms(1) by (rule index_inv_bucket)
  then have ss: "sorted_wrt (<) (map ?f ?b)" by (simp add: bucket_sorted_def)
  have hit: "?p < length ?b" "?f (?b ! ?p) = s"
    using bin_search_hit[OF srt, of s] assms(2,3) by auto
  have "distinct (map ?f ?b)" using ss by (simp add: strict_sorted_iff)
  then have "inj_on ?f (set ?b)" by (simp add: distinct_map)
  then have c: "?b ! ?p = c" using hit assms(2,3) by (auto dest: inj_onD)
  have bsplit: "?b = take ?p ?b @ c # drop (Suc ?p) ?b"
    using hit(1) c id_take_nth_drop by fastforce
  have ss2: "sorted_wrt (<) (map ?f (take ?p ?b) @ s # map ?f (drop (Suc ?p) ?b))"
    using ss assms(3) by (subst (asm) bsplit) simp
  have lo: "\<forall>x\<in>set (take ?p ?b). ?f x < s" and hi: "\<forall>x\<in>set (drop (Suc ?p) ?b). s < ?f x"
    using ss2 by (auto simp: sorted_wrt_append)
  obtain v where v: "map_of ?cm t = Some v"
    using assms(2) by (cases "map_of ?cm t") (auto simp: bucket_of_def)
  then have vb: "map_of ?cm t = Some ?b" by (simp add: bucket_of_def)
  have cm1: "snd (odd_getitem ?cm t) = ?cm" using v by (simp add: odd_getitem_present)
  have tg: "tgid (?h c) = t" using index_inv_tgid[OF assms(1,2)] .
  \<comment> \<open>disable\<close>
  have dis: "disable s t z st = Inr ?st1"
    unfolding disable_eq Let_def using hit by (simp add: c cm1 assms(3))
  have keys1: "(\<lambda>x. sgid (?h1 x)) = ?f"
    by (auto simp: fun_eq_iff sgid_conn_disable)
  have nb': "\<forall>x\<in>set ?b'. ?f x \<noteq> s" using lo hi by auto
  have mid1: "\<not> present (heap ?st1) (connections_map ?st1) s t"
    using nb' by (simp add: present_def odd_put_bucket sgid_conn_disable)
  have mid2: "c \<in> set (bucket_of (disabled_conns ?st1) t)"
    by (simp add: odd_put_bucket)
  \<comment> \<open>enable: the scan of the disabled bucket stops at c\<close>
  have nd: "\<forall>y\<in>set ?dis. \<not> sgid (?h1 y) = s"
    using assms(4) by (auto simp: present_def sgid_conn_disable)
  have scan: "enumerate_find (\<lambda>x. sgid (heap ?st1 x) = s) 0 (?dis @ [c]) = Some (length ?dis, c)"
    using enumerate_find_snoc[of ?dis "\<lambda>x. sgid (?h1 x) = s" c 0] nd assms(3)
    by (simp add: sgid_conn_disable)
  \<comment> \<open>enable: store_connection puts c back at its position\<close>
  let ?st1' = "?st1\<lparr>disabled_conns := snd (odd_getitem (disabled_conns ?st1) t)\<rparr>"
  have st1': "?st1' = ?st1" by (simp add: odd_put_getitem)
  have "sorted_wrt (<) (map ?f (take ?p ?b) @ map ?f (drop (Suc ?p) ?b))"
    using ss2 lo hi by (fastforce simp: sorted_wrt_append)
  then have srt': "sorted (map ?f (take ?p ?b @ drop (Suc ?p) ?b))"
    using strict_sorted_imp_sorted by fastforce
  have hi': "\<forall>y\<in>set (drop (Suc ?p) ?b). s \<le> ?f y" using hi by force
  have "bin_search ?b' s ?f = length (take ?p ?b)"
    by (rule bin_search_split[OF srt' lo hi'])
  then have pos: "bin_search ?b' s ?f = ?p" using hit(1) by simp
  have miss: "\<not> (?p < length ?b' \<and> ?f (?b' ! ?p) = s)"
  proof
    assume a: "?p < length ?b' \<and> ?f (?b' ! ?p) = s"
    then have "?b' ! ?p \<in> set ?b'" by (meson nth_mem)
    with nb' a show False by blast
  qed
  have ins: "py_insert ?b' ?p c = ?b"
    using hit(1) bsplit by (simp add: py_insert_def min_def)
  define st1 where "st1 = ?st1"
  have f1: "sgid (heap st1 c) = s" "tgid (heap st1 c) = t"
    "\<And>x. sgid (heap st1 x) = sgid (?h x)"
    "bucket_of (connections_map st1) t = ?b'"
    "snd (odd_getitem (connections_map st1) t) = connections_map st1"
    using keys1 by (simp_all add: st1_def sgid_conn_disable tgid_conn_disable assms(3) tg
        odd_put_bucket odd_put_getitem)
  have restore: "odd_put (connections_map st1) t ?b = ?cm"
    by (simp add: st1_def odd_put_twice odd_put_same[OF vb])
  have "store_connection c st1 = Inr (st1\<lparr>connections_map := ?cm\<rparr>)"
    unfolding store_connection_eq Let_def
    by (simp only: f1(2-) assms(3) pos miss if_False ins restore) simp
  then have store: "store_connection c ?st1 = Inr (?st1\<lparr>connections_map := ?cm\<rparr>)"
    by (simp only: st1_def)
  have del: "py_del (?dis @ [c]) (length ?dis) = Inr ?dis"
    by (simp add: py_del_def)
  have dm1: "map_of ?dm1 t = Some ?dis" by (rule odd_getitem_snd_map_of)
  have en: "enable s t ?st1 = Inr ?st2"
    unfolding enable_eq Let_def
    apply (simp only: st1')
    apply (simp add: odd_put_bucket scan[simplified] store del odd_put_twice odd_put_same[OF dm1]
        conn_enable_disable)
    done
  have fin: "\<not> present (heap ?st2) (disabled_conns ?st2) s t"
    using assms(4) by (auto simp: present_def odd_getitem_snd_bucket)
  show ?thesis
    apply (rule exI[of _ ?st1], rule exI[of _ ?st2])
    using dis en mid1 mid2 fin by (simp add: odd_getitem_snd_bucket)
qed

theorem disable_enable_restores_witness:
  "index_inv twin_manager \<and> 0 \<in> set (bucket_of (connections_map twin_manager) 10) \<and>
   sgid (heap twin_manager 0) = 1 \<and>
   \<not> present (heap twin_manager) (disabled_conns twin_manager) 1 10 \<and>
   (\<exists>st1 st2. disable 1 10 True twin_manager = Inr st1 \<and> enable 1 10 st1 = Inr st2 \<and>
      \<not> present (heap st1) (connections_map st1) 1 10 \<and>
      0 \<in> set (bucket_of (disabled_conns st1) 10) \<and>
      connections_map st2 = connections_map twin_manager \<and>
      heap st2 = (heap twin_manager)(0 := (heap twin_manager 0)\<lparr>disabled := False\<rparr>) \<and>
      \<not> present (heap st2) (disabled_conns st2) 1 10 \<and>
      (\<forall>k. bucket_of (disabled_conns st2) k = bucket_of (disabled_conns twin_manager) k) \<and>
      logged st2 = logged twin_manager)"
proof -
  have i: "index_inv twin_manager"
    by (simp add: index_inv_def twin_manager_def twin_heap_def Connection_def bucket_sorted_def)
  have m: "0 \<in> set (bucket_of (connections_map twin_manager) 10)"
    by (simp add: twin_manager_def bucket_of_def)
  have s: "sgid (heap twin_manager 0) = 1"
    by (simp add: twin_manager_def twin_heap_def Connection_def)
  have d: "\<not> present (heap twin_manager) (disabled_conns twin_manager) 1 10"
    by (simp add: present_def twin_manager_def bucket_of_def)
  show ?thesis using i m s d disable_enable_restores[OF i m s d, of True] by blast
qed

text \<open>
  C3 as stated fails when the disabled index already holds a connection for the pair,
  a state that store_connection reaches: it looks at the active index only. With two
  connection objects 0 and 1 for 1->10: store 0, disable, store 1 leaves 1 active and 0
  disabled. Then disable(1,10) and enable(1,10) bring back 0, not 1: connection 1 stays
  in the disabled index, and the pair is in both indices.
\<close>

theorem disable_enable_other_connection:
  "map_sum id contents
     (run [store_connection 0, disable 1 10 False, store_connection 1]
        (new_manager twin_heap)) = Inr ([(10, [1])], [(10, [0])]) \<and>
   map_sum id contents
     (run [store_connection 0, disable 1 10 False, store_connection 1,
           disable 1 10 False, enable 1 10]
        (new_manager twin_heap)) = Inr ([(10, [0])], [(10, [1])])"
  by (simp add: store_connection_eq disable_eq enable_eq new_manager_def twin_heap_def
      Connection_def Let_def bucket_of_def odd_getitem_def odd_put_def py_insert_def
      py_del_def bin_search_def bin_search_loop.simps log_msg_def contents_def
      conn_disable_def conn_enable_def)

section \<open>The group operations step over connections\<close>

text \<open>
  C4 at a failing input. The active index holds 1->10 and 2->10 in one bucket and both
  filters are None, so both connections match. delete_group deletes 1->10 only and
  disable_group disables 1->10 only: after the body has removed the element at the
  iterator's index, the next element has moved to that index and the iterator steps over
  it. With both connections disabled, enable_group enables 1->10 only.
\<close>

theorem group_operations_skip_connections:
  "map_sum id contents (delete_group None None pair_manager) = Inr ([(10, [2])], []) \<and>
   map_sum id contents (disable_group None None False pair_manager) =
     Inr ([(10, [2])], [(10, [1])]) \<and>
   map_sum id contents
     (run [disable 1 10 False, disable 2 10 False] pair_manager) = Inr ([(10, [])], [(10, [1, 2])]) \<and>
   map_sum id contents
     (run [disable 1 10 False, disable 2 10 False, enable_group None None] pair_manager) =
     Inr ([(10, [1])], [(10, [2])])"
  by (simp add: delete_group_def disable_group_def enable_group_def find_group_in_def
      find_group_in_bucket.simps pair_manager_def example_heap_def Connection_def Let_def
      bucket_of_def odd_put_def odd_getitem_def py_del_def py_pop_def py_insert_def
      contents_def conn_disable_def conn_enable_def disable_eq store_connection_eq
      bin_search_def bin_search_loop.simps log_msg_def)

section \<open>The offsets of the gap junctions are not computed\<close>

text \<open>Whatever follows, a first line of two fields makes the constructor raise.\<close>

lemma gj_offsets_first_line:
  "py_split (py_strip line) = [gid, offset] \<Longrightarrow> gj_offsets_init (line # rest) = Inl TypeError"
  by (simp add: gj_offsets_init_def)

lemma gj_offsets_empty_file: "gj_offsets_init [] = Inr []"
  by (simp add: gj_offsets_init_def)

text \<open>
  C5 at a failing input. For the lines "1 4", "2 6", "3 2" the constructor raises
  TypeError at the first line: the field is a string, \<open>2 * offset\<close> is the string "44",
  and adding it to the integer \<open>gj_sum\<close> fails. No offset table is built.
\<close>

theorem gj_offsets_type_error:
  "py_split (py_strip (''1 4'' @ [CHR 0x0A])) = [''1'', ''4''] \<and>
   py_mul (PyInt 2) (PyStr ''4'') = Inr (PyStr ''44'') \<and>
   gj_offsets_init [''1 4'' @ [CHR 0x0A], ''2 6'' @ [CHR 0x0A], ''3 2'' @ [CHR 0x0A]] =
     Inl TypeError"
  by (simp add: gj_offsets_init_def py_split_def py_strip_def is_space_def numeral_2_eq_2)

section \<open>The corrections applied to the parameters read\<close>

lemma map_rows_Inr:
  "map_rows f xs = Inr ys \<Longrightarrow>
     length ys = length xs \<and> (\<forall>i<length xs. f (xs ! i) = Inr (ys ! i))"
proof (induction xs arbitrary: ys)
  case Nil
  then show ?case by simp
next
  case (Cons x xs)
  from Cons.prems obtain y ys' where y: "f x = Inr y" and ys': "map_rows f xs = Inr ys'"
    and eq: "ys = y # ys'"
    by (auto split: sum.splits)
  from Cons.IH[OF ys'] have ih: "length ys' = length xs" "\<forall>i<length xs. f (xs ! i) = Inr (ys' ! i)"
    by simp_all
  show ?case
  proof (intro conjI allI impI)
    show "length ys = length (x # xs)" using ih(1) eq by simp
  next
    fix i assume "i < length (x # xs)"
    then show "f ((x # xs) ! i) = Inr (ys ! i)"
      using y ih(2) eq by (cases i) simp_all
  qed
qed

lemma map_rows_defined:
  "\<forall>x\<in>set xs. \<exists>y. f x = Inr y \<Longrightarrow> \<exists>ys. map_rows f xs = Inr ys"
  by (induction xs) (auto split: sum.splits)

lemma patch_delay_row_Inr:
  "patch_delay_row dt row = Inr row' \<Longrightarrow>
     row' = row(''delay'' := of_int (py_int (row ''delay'' / dt + 1 / 100000)) * dt)"
  by (auto simp: patch_delay_row_def astype_i4_def split: if_splits sum.splits)

lemma patch_delay_Inr:
  assumes "patch_delay_fp_inaccuracies dt records = Inr patched"
  shows "dtype_names patched = dtype_names records \<and>
         length (recs patched) = length (recs records) \<and>
         (\<forall>i<length (recs records).
            recs patched ! i =
              (if ''delay'' \<in> set (dtype_names records)
               then (recs records ! i)
                      (''delay'' := of_int (py_int ((recs records ! i) ''delay'' / dt + 1 / 100000)) * dt)
               else recs records ! i))"
proof (cases "length (recs records) = 0 \<or> ''delay'' \<notin> set (dtype_names records)")
  case True
  with assms have "patched = records" by (simp add: patch_delay_fp_inaccuracies_def)
  with True show ?thesis by auto
next
  case False
  with assms obtain rows where rows: "map_rows (patch_delay_row dt) (recs records) = Inr rows"
    and p: "patched = records\<lparr>recs := rows\<rparr>"
    by (auto simp: patch_delay_fp_inaccuracies_def split: sum.splits)
  from map_rows_Inr[OF rows] have l: "length rows = length (recs records)"
    and r: "\<forall>i<length (recs records). patch_delay_row dt (recs records ! i) = Inr (rows ! i)"
    by simp_all
  show ?thesis using False p l r by (auto dest!: patch_delay_row_Inr)
qed

section \<open>connect_all keeps the buckets ordered\<close>

lemma index_inv_heap_cong:
  assumes "index_inv st"
    "\<forall>r \<in> set (all_connections st). sgid (h r) = sgid (heap st r) \<and> tgid (h r) = tgid (heap st r)"
  shows "index_inv (st\<lparr>heap := h\<rparr>)"
proof -
  have in_all: "\<And>t b r. (t, b) \<in> set (connections_map st) \<Longrightarrow> r \<in> set b \<Longrightarrow>
      r \<in> set (all_connections st)"
    by (force simp: all_connections_def odd_values_def)
  show ?thesis
    unfolding index_inv_def
  proof (intro conjI ballI)
    show "distinct (map fst (connections_map (st\<lparr>heap := h\<rparr>)))"
      using assms(1) by (simp add: index_inv_def)
  next
    fix x assume x: "x \<in> set (connections_map (st\<lparr>heap := h\<rparr>))"
    obtain t b where tb: "x = (t, b)" by (cases x)
    with x have mem: "(t, b) \<in> set (connections_map st)" by simp
    then have old: "bucket_sorted (heap st) b" "\<forall>r \<in> set b. tgid (heap st r) = t"
      using assms(1) by (auto simp: index_inv_def)
    have same: "\<forall>r \<in> set b. sgid (h r) = sgid (heap st r) \<and> tgid (h r) = tgid (heap st r)"
      using assms(2) in_all[OF mem] by blast
    then have meq: "map (\<lambda>r. sgid (h r)) b = map (\<lambda>r. sgid (heap st r)) b"
      by (simp add: map_eq_conv)
    have "bucket_sorted h b" using old(1) unfolding bucket_sorted_def meq .
    then show "case x of (t, b) \<Rightarrow>
        bucket_sorted (heap (st\<lparr>heap := h\<rparr>)) b \<and>
        (\<forall>r \<in> set b. tgid (heap (st\<lparr>heap := h\<rparr>) r) = t)"
      using tb old(2) same by simp
  qed
qed

lemma store_connection_total: "\<exists>st'. store_connection c st = Inr st'"
  by (simp add: store_connection_eq Let_def)

lemma store_connection_inv:
  assumes "index_inv st" "store_connection c st = Inr st'"
  shows "index_inv st' \<and> heap st' = heap st \<and>
         set (all_connections st') \<subseteq> insert c (set (all_connections st))"
proof (cases "present (heap st) (connections_map st) (sgid (heap st c)) (tgid (heap st c))")
  case True
  from store_connection_present[OF assms(1) True] assms(2)
  have "st' = log_msg ERROR ''Attempt to store existing connection: %d->%d''
                  [sgid (heap st c), tgid (heap st c)] st"
    by simp
  then show ?thesis
    using assms(1) by (auto simp: log_msg_def index_inv_def all_connections_def)
next
  case False
  from store_connection_absent[OF assms(1) False] assms(2)
  have "index_inv st'" "heap st' = heap st"
    "mset (all_connections st') = add_mset c (mset (all_connections st))"
    by auto
  then show ?thesis
    by (metis order_refl set_mset_add_mset_insert set_mset_mset)
qed

lemma store_connection_next_ref:
  fixes st :: "('c, 'p, 'z) conn_manager_scheme"
  shows "store_connection c st = Inr st' \<Longrightarrow>
     next_ref st' = next_ref st \<and> circuit_target st' = circuit_target st"
  by (auto simp: store_connection_eq Let_def log_msg_def split: if_splits)

lemma all_connections_heap_update [simp]:
  "all_connections (st\<lparr>heap := h\<rparr>) = all_connections st"
  by (simp add: all_connections_def)

section \<open>The calcium scaling of U\<close>

lemma scale_column_length:
  "length ks = length rows \<Longrightarrow> length (scale_column name ks rows) = length rows"
  by (simp add: scale_column_def)

lemma scale_column_nth:
  "length ks = length rows \<Longrightarrow> i < length rows \<Longrightarrow>
     scale_column name ks rows ! i = (rows ! i)(name := (rows ! i) name * ks ! i)"
  by (simp add: scale_column_def)

lemma scale_extra_vars_Inr:
  assumes "scale_extra_vars vars ks ra = Inr ra'" "length ks = length (recs ra)"
  shows "dtype_names ra' = dtype_names ra \<and> length (recs ra') = length (recs ra) \<and>
         (\<forall>i<length (recs ra). \<forall>v.
            (recs ra' ! i) v = (recs ra ! i) v * (ks ! i) ^ count_list vars v)"
  using assms
proof (induction vars arbitrary: ra)
  case Nil
  then show ?case by simp
next
  case (Cons var vars)
  let ?ra1 = "ra\<lparr>recs := scale_column var ks (recs ra)\<rparr>"
  from Cons.prems(1) have r: "scale_extra_vars vars ks ?ra1 = Inr ra'"
    by (simp split: if_splits)
  have l: "length ks = length (recs ?ra1)"
    using Cons.prems(2) by (simp add: scale_column_length)
  from Cons.IH[OF r l]
  have ih: "dtype_names ra' = dtype_names ra" "length (recs ra') = length (recs ra)"
    "\<forall>i<length (recs ra). \<forall>v.
        (recs ra' ! i) v = (scale_column var ks (recs ra) ! i) v * (ks ! i) ^ count_list vars v"
    using Cons.prems(2) by (simp_all add: scale_column_length)
  show ?case
  proof (intro conjI allI impI)
    fix i v assume i: "i < length (recs ra)"
    show "(recs ra' ! i) v = (recs ra ! i) v * (ks ! i) ^ count_list (var # vars) v"
      using ih(3) i Cons.prems(2) by (simp add: scale_column_nth)
  qed (use ih in simp_all)
qed

lemma scale_U_param_Inr:
  assumes "scale_U_param ra (Some y) vars = Inr ra'"
  shows "length (recs ra') = length (recs ra) \<and>
         (\<forall>i<length (recs ra). \<forall>v.
            (recs ra' ! i) v =
              (recs ra ! i) v *
                constrained_hill ((recs ra ! i) ''u_hill_coefficient'') y ^ count_list (''U'' # vars) v)"
proof (cases "length (recs ra) = 0")
  case True
  with assms show ?thesis by (simp add: scale_U_param_def)
next
  case False
  with assms obtain ks where ks: "map_rows (scale_factor y) (recs ra) = Inr ks"
    and r: "scale_extra_vars vars ks (ra\<lparr>recs := scale_column ''U'' ks (recs ra)\<rparr>) = Inr ra'"
    by (auto simp: scale_U_param_def split: sum.splits)
  from map_rows_Inr[OF ks] have l: "length ks = length (recs ra)"
    and k: "\<forall>i<length (recs ra). scale_factor y (recs ra ! i) = Inr (ks ! i)"
    by simp_all
  have kv: "\<forall>i<length (recs ra). ks ! i = constrained_hill ((recs ra ! i) ''u_hill_coefficient'') y"
    using k by (auto simp: scale_factor_def split: if_splits)
  from scale_extra_vars_Inr[OF r] l
  have e: "length (recs ra') = length (recs ra)"
    "\<forall>i<length (recs ra). \<forall>v.
       (recs ra' ! i) v = (scale_column ''U'' ks (recs ra) ! i) v * (ks ! i) ^ count_list vars v"
    by (simp_all add: scale_column_length)
  show ?thesis
  proof (intro conjI allI impI)
    fix i v assume i: "i < length (recs ra)"
    show "(recs ra' ! i) v =
      (recs ra ! i) v *
        constrained_hill ((recs ra ! i) ''u_hill_coefficient'') y ^ count_list (''U'' # vars) v"
      using e(2) i l kv by (simp add: scale_column_nth)
  qed (use e in simp)
qed


lemma get_synapse_parameters_first:
  assumes "syn_params_rd rd gid = None" "get_synapse_parameters rd gid dt = Inr (params, rd')"
  shows "scaled_records rd dt gid params \<and>
         rd' = rd\<lparr>syn_params_rd := (syn_params_rd rd)(gid := Some params)\<rparr>"
proof -
  from assms obtain loaded patched
    where l: "load_synapse_parameters (backend rd) gid = Inr loaded"
      and p: "patch_delay_fp_inaccuracies dt loaded = Inr patched"
      and s: "(if uhill_property_avail rd
               then scale_U_param patched (ca_concentration rd) (extra_scale_vars rd)
               else Inr patched) = Inr params"
      and r: "rd' = rd\<lparr>syn_params_rd := (syn_params_rd rd)(gid := Some params)\<rparr>"
    by (auto simp: get_synapse_parameters_def split: sum.splits)
  from patch_delay_Inr[OF p]
  have pl: "length (recs patched) = length (recs loaded)"
    and pv: "\<And>i v. i < length (recs loaded) \<Longrightarrow> v \<noteq> ''delay'' \<Longrightarrow>
               (recs patched ! i) v = (recs loaded ! i) v"
    by auto
  have "scaled_records rd dt gid params"
  proof (cases "uhill_property_avail rd \<and> ca_concentration rd \<noteq> None")
    case False
    with s have "params = patched" by (auto simp: scale_U_param_def split: if_splits)
    with False l p pl pv show ?thesis
      unfolding scaled_records_def by (intro exI[of _ loaded] exI[of _ patched]) auto
  next
    case True
    then obtain y where y: "ca_concentration rd = Some y" by auto
    with True s have "scale_U_param patched (Some y) (extra_scale_vars rd) = Inr params"
      by simp
    from scale_U_param_Inr[OF this] pl
    have sl: "length (recs params) = length (recs loaded)"
      and sv: "\<And>i v. i < length (recs loaded) \<Longrightarrow>
          (recs params ! i) v =
            (recs patched ! i) v *
              constrained_hill ((recs patched ! i) ''u_hill_coefficient'') y
                ^ count_list (''U'' # extra_scale_vars rd) v"
      by simp_all
    have k: "\<And>i. i < length (recs loaded) \<Longrightarrow>
        constrained_hill ((recs patched ! i) ''u_hill_coefficient'') y =
          ((recs loaded ! i) ''u_hill_coefficient'' ^ 4 + 16) / 16 * y ^ 4 /
            ((recs loaded ! i) ''u_hill_coefficient'' ^ 4 + y ^ 4)"
      using pv[of _ "''u_hill_coefficient''"] by (simp add: constrained_hill_def Let_def)
    have body: "\<forall>i<length (recs loaded). \<forall>name.
           (recs params ! i) name =
             (if uhill_property_avail rd
              then (case ca_concentration rd of
                      None \<Rightarrow> (recs patched ! i) name
                    | Some y \<Rightarrow>
                        (recs patched ! i) name *
                          (((recs loaded ! i) ''u_hill_coefficient'' ^ 4 + 16) / 16 * y ^ 4 /
                           ((recs loaded ! i) ''u_hill_coefficient'' ^ 4 + y ^ 4))
                          ^ count_list (''U'' # extra_scale_vars rd) name)
              else (recs patched ! i) name) \<and>
           (name \<noteq> ''delay'' \<longrightarrow> (recs patched ! i) name = (recs loaded ! i) name)"
    proof (intro allI impI conjI)
      fix i name assume i: "i < length (recs loaded)"
      have "(recs params ! i) name =
          (recs patched ! i) name *
            (((recs loaded ! i) ''u_hill_coefficient'' ^ 4 + 16) / 16 * y ^ 4 /
             ((recs loaded ! i) ''u_hill_coefficient'' ^ 4 + y ^ 4))
            ^ count_list (''U'' # extra_scale_vars rd) name"
        using sv[OF i, of name] k[OF i] by (simp only:)
      then show "(recs params ! i) name =
             (if uhill_property_avail rd
              then (case ca_concentration rd of
                      None \<Rightarrow> (recs patched ! i) name
                    | Some y \<Rightarrow>
                        (recs patched ! i) name *
                          (((recs loaded ! i) ''u_hill_coefficient'' ^ 4 + 16) / 16 * y ^ 4 /
                           ((recs loaded ! i) ''u_hill_coefficient'' ^ 4 + y ^ 4))
                          ^ count_list (''U'' # extra_scale_vars rd) name)
              else (recs patched ! i) name)"
        using True y by (simp only: if_True option.case)
    next
      fix i name assume "i < length (recs loaded)" "name \<noteq> ''delay''"
      then show "(recs patched ! i) name = (recs loaded ! i) name" by (rule pv)
    qed
    show ?thesis
      unfolding scaled_records_def
      using l p sl body by blast
  qed
  with r show ?thesis by simp
qed

lemma get_synapse_parameters_scaling:
  assumes "scaling_reader rd0 dt rd" "get_synapse_parameters rd gid dt = Inr (params, rd')"
  shows "scaled_records rd0 dt gid params \<and> scaling_reader rd0 dt rd'"
proof (cases "syn_params_rd rd gid")
  case (Some cached)
  with assms(2) have "params = cached" "rd' = rd" by (simp_all add: get_synapse_parameters_def)
  with assms(1) Some show ?thesis by (simp add: scaling_reader_def)
next
  case None
  from get_synapse_parameters_first[OF None assms(2)]
  have sr: "scaled_records rd dt gid params"
    and r: "rd' = rd\<lparr>syn_params_rd := (syn_params_rd rd)(gid := Some params)\<rparr>"
    by simp_all
  from assms(1) have same: "backend rd = backend rd0"
    "uhill_property_avail rd = uhill_property_avail rd0"
    "ca_concentration rd = ca_concentration rd0" "extra_scale_vars rd = extra_scale_vars rd0"
    and c: "\<forall>g p. syn_params_rd rd g = Some p \<longrightarrow> scaled_records rd0 dt g p"
    by (simp_all add: scaling_reader_def)
  have sr0: "scaled_records rd0 dt gid params"
    using sr unfolding scaled_records_def same .
  have "scaling_reader rd0 dt rd'"
    using same c sr0 r by (auto simp: scaling_reader_def)
  with sr0 show ?thesis by simp
qed

lemma get_all_scaling:
  assumes "scaling_reader rd0 dt rd" "get_all rd gids dt = Inr (results, rd')"
  shows "length results = length gids \<and>
         (\<forall>j<length gids. scaled_records rd0 dt (gids ! j) (results ! j))"
  using assms
proof (induction gids arbitrary: rd results)
  case Nil
  then show ?case by simp
next
  case (Cons gid gids)
  from Cons.prems(2) obtain params rd1 rest
    where g: "get_synapse_parameters rd gid dt = Inr (params, rd1)"
      and a: "get_all rd1 gids dt = Inr (rest, rd')"
      and e: "results = params # rest"
    by (auto split: sum.splits)
  from get_synapse_parameters_scaling[OF Cons.prems(1) g]
  have ok: "scaled_records rd0 dt gid params" and rd1: "scaling_reader rd0 dt rd1" by simp_all
  from Cons.IH[OF rd1 a]
  have ih: "length rest = length gids"
    "\<forall>j<length gids. scaled_records rd0 dt (gids ! j) (rest ! j)"
    by simp_all
  show ?case
  proof (intro conjI allI impI)
    show "length results = length (gid # gids)" using ih(1) e by simp
  next
    fix j assume "j < length (gid # gids)"
    then show "scaled_records rd0 dt ((gid # gids) ! j) (results ! j)"
      using ok ih(2) e by (cases j) simp_all
  qed
qed

text \<open>
  C6 as amended. On a reader that has read nothing yet, in every result of every sequence
  of \<open>get_synapse_parameters\<close> calls that return, first reads and reads from the cache
  alike, there is one record for each record loaded for the gid. If the backend reports
  u_hill_coefficient and a calcium concentration y is configured, every field of a record
  is its value after the correction of the delay (for every field but the delay, the
  value loaded), multiplied by scale = (K^4 + 16)/16 * y^4 / (K^4 + y^4), K the
  u_hill_coefficient loaded for the record, once for each time the field is named among
  "U" and the declared scale variables: U and every scale variable declared once are
  multiplied by the scale, a field that is named n times by scale^n, and the other fields
  are not changed. If the concentration is unset or the backend does not report the
  property, every field, U among them, is as loaded, the delay corrected.
\<close>

theorem get_synapse_parameters_scales_U:
  assumes "\<forall>g. syn_params_rd rd g = None" "get_all rd gids dt = Inr (results, rd')"
    "j < length gids"
  shows "\<exists>loaded patched.
           load_synapse_parameters (backend rd) (gids ! j) = Inr loaded \<and>
           patch_delay_fp_inaccuracies dt loaded = Inr patched \<and>
           length (recs (results ! j)) = length (recs loaded) \<and>
           (\<forall>i<length (recs loaded). \<forall>name.
              (recs (results ! j) ! i) name =
                (if uhill_property_avail rd
                 then (case ca_concentration rd of
                         None \<Rightarrow> (recs patched ! i) name
                       | Some y \<Rightarrow>
                           (recs patched ! i) name *
                             (((recs loaded ! i) ''u_hill_coefficient'' ^ 4 + 16) / 16 * y ^ 4 /
                              ((recs loaded ! i) ''u_hill_coefficient'' ^ 4 + y ^ 4))
                             ^ count_list (''U'' # extra_scale_vars rd) name)
                 else (recs patched ! i) name) \<and>
              (name \<noteq> ''delay'' \<longrightarrow> (recs patched ! i) name = (recs loaded ! i) name))"
proof -
  have "scaling_reader rd dt rd" using assms(1) by (simp add: scaling_reader_def)
  from get_all_scaling[OF this assms(2)] assms(3)
  have "scaled_records rd dt (gids ! j) (results ! j)" by simp
  then show ?thesis unfolding scaled_records_def .
qed


lemma hill_reader_get_all:
  "\<exists>results rd'. get_all hill_reader [7, 7] (1 / 4) = Inr (results, rd')"
  by (simp add: get_synapse_parameters_def hill_reader_def new_reader_def hill_params_def
      hill_records_def patch_delay_fp_inaccuracies_def synapse_fields_def patch_delay_row_def
      astype_i4_def py_int_def zero_row_def scale_U_param_def scale_factor_def
      scale_column_def SYNAPSE_INDEX_NAMES_def)

theorem get_synapse_parameters_scales_U_witness:
  "(\<forall>g. syn_params_rd hill_reader g = None) \<and> (1 :: nat) < length [7 :: gid, 7] \<and>
   (\<exists>results rd'. get_all hill_reader [7, 7] (1 / 4) = Inr (results, rd') \<and>
      length (recs (results ! 1)) = 1 \<and>
      (recs (results ! 1) ! 0) ''U'' = 1 / 2 * (2 / 17) \<and>
      (recs (results ! 1) ! 0) ''u_hill_coefficient'' = 2)"
proof -
  have m: "\<forall>g. syn_params_rd hill_reader g = None"
    by (simp add: hill_reader_def new_reader_def)
  have j: "(1 :: nat) < length [7 :: gid, 7]" by simp
  from hill_reader_get_all obtain results rd'
    where g: "get_all hill_reader [7, 7] (1 / 4) = Inr (results, rd')" by blast
  from get_synapse_parameters_scales_U[OF m g j]
  have "length (recs (results ! 1)) = 1 \<and>
      (recs (results ! 1) ! 0) ''U'' = 1 / 2 * (2 / 17) \<and>
      (recs (results ! 1) ! 0) ''u_hill_coefficient'' = 2"
    by (auto simp: hill_reader_def new_reader_def hill_params_def hill_records_def zero_row_def
        SYNAPSE_INDEX_NAMES_def)
  with m j g show ?thesis by blast
qed

text \<open>
  C6 as stated fails when "U" is declared as a scale variable. The record has U = 0.5 and
  K = 2, the concentration is 1, so the scale is 2/17: the U returned is
  0.5 * (2/17) * (2/17), the scale applied twice, not 0.5 * (2/17).
\<close>

theorem declared_U_scaled_twice:
  "extra_scale_vars (configure_override (Some ''GluSynapse'') declared_U hill_reader) = [''U''] \<and>
   map_sum id (column ''U'')
     (map_sum id fst
        (get_synapse_parameters (configure_override (Some ''GluSynapse'') declared_U hill_reader)
           7 (1 / 4))) = Inr [1 / 2 * (2 / 17) * (2 / 17)] \<and>
   constrained_hill 2 1 = 2 / 17"
  by (simp add: configure_override_def declared_U_def py_split_sep_def Let_def
      get_synapse_parameters_def hill_reader_def new_reader_def hill_params_def
      hill_records_def patch_delay_fp_inaccuracies_def synapse_fields_def patch_delay_row_def
      astype_i4_def py_int_def zero_row_def scale_U_param_def scale_factor_def
      scale_column_def SYNAPSE_INDEX_NAMES_def column_def constrained_hill_def)

section \<open>The correction of the delay\<close>





section \<open>The legacy reader\<close>

lemma nrn_row_fields:
  "nrn_row w data p ''u_hill_coefficient'' = - 1"
  "nrn_row w data p ''conductance_ratio'' = - 1"
  "nrn_row w data p ''U'' = data 9"
  by (simp_all add: nrn_row_def Let_def set_index_def synapse_fields_def)

lemma load_legacy_records:
  assumes "load_synapse_parameters (SynReaderNRN v n d m) gid = Inr loaded"
  shows "legacy_records d gid loaded"
proof (cases "d gid")
  case None
  with assms show ?thesis by (auto simp: legacy_records_def empty_params_def)
next
  case (Some rows)
  show ?thesis
  proof (cases "length rows = 0")
    case True
    with assms Some show ?thesis by (auto simp: legacy_records_def empty_params_def)
  next
    case False
    with assms Some have "recs loaded =
        map (\<lambda>i. nrn_row (has_nrrp (SynReaderNRN v n d m)) (rows ! i)
                   (recs (create_array m (length rows)) ! i)) [0..<length rows]"
      by (auto simp: Let_def)
    then show ?thesis using Some by (simp add: legacy_records_def nrn_row_fields)
  qed
qed

lemma patch_delay_legacy_records:
  assumes "patch_delay_fp_inaccuracies dt loaded = Inr patched" "legacy_records d gid loaded"
  shows "legacy_records d gid patched"
proof -
  from patch_delay_Inr[OF assms(1)]
  have l: "length (recs patched) = length (recs loaded)"
    and r: "\<forall>i<length (recs loaded). \<forall>name. name \<noteq> ''delay'' \<longrightarrow>
              (recs patched ! i) name = (recs loaded ! i) name"
    by auto
  show ?thesis using assms(2) l r by (simp add: legacy_records_def)
qed

lemma get_synapse_parameters_legacy:
  assumes "legacy_reader d rd" "get_synapse_parameters rd gid dt = Inr (params, rd')"
  shows "legacy_records d gid params \<and> legacy_reader d rd'"
proof (cases "syn_params_rd rd gid")
  case (Some cached)
  with assms(2) have "params = cached" "rd' = rd" by (simp_all add: get_synapse_parameters_def)
  with assms(1) Some show ?thesis by (simp add: legacy_reader_def)
next
  case None
  from assms(1) obtain v n m where b: "backend rd = SynReaderNRN v n d m"
    and u: "\<not> uhill_property_avail rd"
    and c: "\<forall>g p. syn_params_rd rd g = Some p \<longrightarrow> legacy_records d g p"
    by (auto simp: legacy_reader_def)
  from assms(2) None u b obtain loaded
    where l: "load_synapse_parameters (SynReaderNRN v n d m) gid = Inr loaded"
      and p: "patch_delay_fp_inaccuracies dt loaded = Inr params"
      and r: "rd' = rd\<lparr>syn_params_rd := (syn_params_rd rd)(gid := Some params)\<rparr>"
    by (auto simp: get_synapse_parameters_def split: sum.splits)
  have ok: "legacy_records d gid params"
    using patch_delay_legacy_records[OF p load_legacy_records[OF l]] .
  have "legacy_reader d rd'"
    using b u c ok r by (auto simp: legacy_reader_def)
  with ok show ?thesis by simp
qed

lemma get_all_legacy:
  assumes "legacy_reader d rd" "get_all rd gids dt = Inr (results, rd')"
  shows "length results = length gids \<and>
         (\<forall>j<length gids. legacy_records d (gids ! j) (results ! j))"
  using assms
proof (induction gids arbitrary: rd results)
  case Nil
  then show ?case by simp
next
  case (Cons gid gids)
  from Cons.prems(2) obtain params rd1 rest
    where g: "get_synapse_parameters rd gid dt = Inr (params, rd1)"
      and a: "get_all rd1 gids dt = Inr (rest, rd')"
      and e: "results = params # rest"
    by (auto split: sum.splits)
  from get_synapse_parameters_legacy[OF Cons.prems(1) g]
  have ok: "legacy_records d gid params" and rd1: "legacy_reader d rd1" by simp_all
  from Cons.IH[OF rd1 a]
  have ih: "length rest = length gids" "\<forall>j<length gids. legacy_records d (gids ! j) (rest ! j)"
    by simp_all
  show ?case
  proof (intro conjI allI impI)
    show "length results = length (gid # gids)" using ih(1) e by simp
  next
    fix j assume "j < length (gid # gids)"
    then show "legacy_records d ((gid # gids) ! j) (results ! j)"
      using ok ih(2) e by (cases j) simp_all
  qed
qed

text \<open>
  C10. The legacy reader reports no property, whatever the field name, so a reader of
  the legacy backend is constructed with the hill coefficient unavailable, whether or not
  a calcium concentration is configured. In every result of every sequence of
  \<open>get_synapse_parameters\<close> calls on such a reader, U is the U of the file (it is not
  scaled) and u_hill_coefficient and conductance_ratio are -1.
\<close>

theorem legacy_reader_never_scales:
  "(\<forall>field_name. \<not> has_property (SynReaderNRN v n d m) field_name) \<and>
   \<not> uhill_property_avail (new_reader (SynReaderNRN v n d m) ca) \<and>
   (\<forall>gids dt results rd' j.
      get_all (new_reader (SynReaderNRN v n d m) ca) gids dt = Inr (results, rd') \<longrightarrow>
      j < length gids \<longrightarrow> legacy_records d (gids ! j) (results ! j))"
proof -
  have "legacy_reader d (new_reader (SynReaderNRN v n d m) ca)"
    by (simp add: legacy_reader_def new_reader_def)
  then show ?thesis
    using get_all_legacy by (auto simp: new_reader_def)
qed

lemma legacy_example_get:
  "\<exists>results rd'. get_all legacy_example [10, 10] (1 / 40) = Inr (results, rd') \<and>
     length (recs (results ! 0)) = 1"
  by (simp add: get_synapse_parameters_def legacy_example_def new_reader_def
      legacy_datasets_def create_array_def Let_def patch_delay_fp_inaccuracies_def
      synapse_fields_def patch_delay_row_def astype_i4_def py_int_def nrn_row_def
      set_index_def legacy_row_def zero_memory_def zero_row_def)

theorem legacy_reader_never_scales_witness:
  "\<exists>results rd'.
     get_all (new_reader (SynReaderNRN 5 1 legacy_datasets zero_memory) (Some 2)) [10, 10] (1 / 40) =
       Inr (results, rd') \<and>
     (0 :: nat) < length [10 :: gid, 10] \<and>
     0 < length (recs (results ! 0)) \<and>
     legacy_records legacy_datasets 10 (results ! 0) \<and>
     (recs (results ! 0) ! 0) ''U'' = 3 / 10 \<and>
     (recs (results ! 0) ! 0) ''u_hill_coefficient'' = - 1"
proof -
  from legacy_example_get obtain results rd'
    where g: "get_all (new_reader (SynReaderNRN 5 1 legacy_datasets zero_memory) (Some 2))
                [10, 10] (1 / 40) = Inr (results, rd')"
      and n: "length (recs (results ! 0)) = 1"
    by (auto simp: legacy_example_def)
  have j: "(0 :: nat) < length [10 :: gid, 10]" by simp
  from legacy_reader_never_scales[of 5 1 legacy_datasets zero_memory "Some 2"] g j
  have ok: "legacy_records legacy_datasets ([10, 10] ! 0) (results ! 0)" by blast
  then have ok': "legacy_records legacy_datasets 10 (results ! 0)" by simp
  then have "(recs (results ! 0) ! 0) ''U'' = 3 / 10"
    "(recs (results ! 0) ! 0) ''u_hill_coefficient'' = - 1"
    using n by (auto simp: legacy_records_def legacy_datasets_def legacy_row_def)
  with g j n ok' show ?thesis by auto
qed

section \<open>Every call of the index keeps the buckets ordered\<close>

lemma index_inv_map:
  assumes "index_inv st" "distinct (map fst cm)"
    "\<forall>(t, b) \<in> set cm. (t, b) \<in> set (connections_map st) \<or>
        (bucket_sorted (heap st) b \<and> (\<forall>r \<in> set b. tgid (heap st r) = t))"
  shows "index_inv (st\<lparr>connections_map := cm\<rparr>)"
  using assms by (fastforce simp: index_inv_def)

lemma set_update_subset: "set (AList.update k v d) \<subseteq> insert (k, v) (set d)"
  by (induction d) auto

lemma index_inv_put:
  assumes "index_inv st" "bucket_sorted (heap st) b" "\<forall>r \<in> set b. tgid (heap st r) = t"
  shows "index_inv (st\<lparr>connections_map := odd_put (connections_map st) t b\<rparr>)"
proof (rule index_inv_map[OF assms(1)])
  show "distinct (map fst (odd_put (connections_map st) t b))"
    using assms(1) by (simp add: index_inv_def odd_put_distinct)
  show "\<forall>(t', b') \<in> set (odd_put (connections_map st) t b).
          (t', b') \<in> set (connections_map st) \<or>
          (bucket_sorted (heap st) b' \<and> (\<forall>r \<in> set b'. tgid (heap st r) = t'))"
    using set_update_subset[of t b "connections_map st"] assms(2,3)
    by (auto simp: odd_put_def)
qed

lemma index_inv_getitem:
  assumes "index_inv st"
  shows "index_inv (st\<lparr>connections_map := snd (odd_getitem (connections_map st) t)\<rparr>)"
proof (rule index_inv_map[OF assms])
  show "distinct (map fst (snd (odd_getitem (connections_map st) t)))"
    using assms by (simp add: index_inv_def odd_getitem_snd_distinct)
  show "\<forall>(t', b') \<in> set (snd (odd_getitem (connections_map st) t)).
          (t', b') \<in> set (connections_map st) \<or>
          (bucket_sorted (heap st) b' \<and> (\<forall>r \<in> set b'. tgid (heap st r) = t'))"
    by (auto simp: odd_getitem_snd_set bucket_sorted_def split: if_splits)
qed

lemma index_inv_other_fields:
  "index_inv (st\<lparr>disabled_conns := d\<rparr>) = index_inv st"
  "index_inv (st\<lparr>logged := l\<rparr>) = index_inv st"
  by (simp_all add: index_inv_def)

lemma bucket_sorted_remove:
  assumes "bucket_sorted h b"
  shows "bucket_sorted h (take i b @ drop (Suc i) b)"
proof (cases "i < length b")
  case False
  with assms show ?thesis by simp
next
  case True
  then have "b = take i b @ b ! i # drop (Suc i) b" by (rule id_take_nth_drop)
  then have "sorted_wrt (<) (map (\<lambda>r. sgid (h r)) (take i b @ b ! i # drop (Suc i) b))"
    using assms by (simp add: bucket_sorted_def)
  then show ?thesis by (auto simp: bucket_sorted_def sorted_wrt_append)
qed

lemma index_inv_remove:
  assumes "index_inv st"
  shows "index_inv (st\<lparr>connections_map :=
                        odd_put (connections_map st) t
                          (take i (bucket_of (connections_map st) t) @
                           drop (Suc i) (bucket_of (connections_map st) t))\<rparr>)"
proof (rule index_inv_put[OF assms])
  let ?b = "bucket_of (connections_map st) t"
  show "bucket_sorted (heap st) (take i ?b @ drop (Suc i) ?b)"
    using index_inv_bucket[OF assms] by (rule bucket_sorted_remove)
  show "\<forall>r \<in> set (take i ?b @ drop (Suc i) ?b). tgid (heap st r) = t"
    using index_inv_tgid[OF assms] by (auto dest: in_set_takeD in_set_dropD)
qed

lemma index_inv_flag:
  assumes "index_inv st" "sgid c' = sgid (heap st c)" "tgid c' = tgid (heap st c)"
  shows "index_inv (st\<lparr>heap := (heap st)(c := c')\<rparr>)"
  by (rule index_inv_heap_cong[OF assms(1)]) (use assms(2,3) in auto)

lemma delete_inv:
  assumes "index_inv st" "delete s t st = Inr st'"
  shows "index_inv st'"
proof -
  let ?st1 = "st\<lparr>connections_map := snd (odd_getitem (connections_map st) t)\<rparr>"
  have i1: "index_inv ?st1" using assms(1) by (rule index_inv_getitem)
  have b1: "bucket_of (connections_map ?st1) t = bucket_of (connections_map st) t"
    by (simp add: odd_getitem_snd_bucket)
  show ?thesis
    using assms(2) index_inv_remove[OF i1, of t] i1 b1
    by (auto simp: delete_eq Let_def log_msg_def index_inv_other_fields split: if_splits)
qed

lemma disable_inv:
  assumes "index_inv st" "disable s t z st = Inr st'"
  shows "index_inv st'"
proof -
  let ?b = "bucket_of (connections_map st) t"
  let ?p = "bin_search ?b s (\<lambda>x. sgid (heap st x))"
  let ?st1 = "st\<lparr>connections_map := snd (odd_getitem (connections_map st) t)\<rparr>"
  have i1: "index_inv ?st1" using assms(1) by (rule index_inv_getitem)
  have b1: "bucket_of (connections_map ?st1) t = ?b"
    by (simp add: odd_getitem_snd_bucket)
  show ?thesis
  proof (cases "?p < length ?b \<and> sgid (heap st (?b ! ?p)) = s")
    case False
    with assms(2) have "st' = log_msg WARNING ''Non-existing connection to disable: %d->%d'' [s, t] ?st1"
      by (simp add: disable_eq Let_def)
    with i1 show ?thesis by (simp add: log_msg_def index_inv_other_fields)
  next
    case True
    let ?st2 = "?st1\<lparr>connections_map := odd_put (connections_map ?st1) t
                        (take ?p ?b @ drop (Suc ?p) ?b)\<rparr>"
    have i2: "index_inv ?st2" using index_inv_remove[OF i1, of t ?p] b1 by simp
    let ?st3 = "?st2\<lparr>disabled_conns := odd_put (snd (odd_getitem (disabled_conns st) t)) t
                          (bucket_of (disabled_conns st) t @ [?b ! ?p])\<rparr>"
    have i3: "index_inv ?st3" using i2 by (simp add: index_inv_def)
    have "index_inv (?st3\<lparr>heap := (heap ?st3)(?b ! ?p := conn_disable z (heap ?st3 (?b ! ?p)))\<rparr>)"
      by (rule index_inv_flag[OF i3]) (simp_all add: conn_disable_def)
    moreover have "st' = ?st3\<lparr>heap := (heap ?st3)(?b ! ?p := conn_disable z (heap ?st3 (?b ! ?p)))\<rparr>"
      using assms(2) True by (simp add: disable_eq Let_def)
    ultimately show ?thesis by simp
  qed
qed

lemma enable_inv:
  assumes "index_inv st" "enable s t st = Inr st'"
  shows "index_inv st'"
proof -
  let ?st1 = "st\<lparr>disabled_conns := snd (odd_getitem (disabled_conns st) t)\<rparr>"
  have i1: "index_inv ?st1" using assms(1) by (simp add: index_inv_other_fields)
  show ?thesis
  proof (cases "enumerate_find (\<lambda>c. sgid (heap st c) = s) 0 (bucket_of (disabled_conns st) t)")
    case None
    with assms(2) i1 show ?thesis
      by (auto simp: enable_eq Let_def log_msg_def index_inv_other_fields)
  next
    case (Some ic)
    obtain i c where ic: "ic = (i, c)" by (cases ic)
    from assms(2) Some ic obtain st2 lst'
      where s2: "store_connection c ?st1 = Inr st2"
        and e: "st' = st2\<lparr>disabled_conns := odd_put (disabled_conns st2) t lst',
                         heap := (heap st2)(c := conn_enable (heap st2 c))\<rparr>"
      by (auto simp: enable_eq Let_def split: sum.splits)
    from store_connection_inv[OF i1 s2] have i2: "index_inv st2" by simp
    then have i3: "index_inv (st2\<lparr>disabled_conns := odd_put (disabled_conns st2) t lst'\<rparr>)"
      by (simp add: index_inv_other_fields)
    have "index_inv ((st2\<lparr>disabled_conns := odd_put (disabled_conns st2) t lst'\<rparr>)
            \<lparr>heap := (heap (st2\<lparr>disabled_conns := odd_put (disabled_conns st2) t lst'\<rparr>))
                       (c := conn_enable (heap st2 c))\<rparr>)"
      by (rule index_inv_flag[OF i3]) (simp_all add: conn_enable_def)
    then show ?thesis using e by simp
  qed
qed

lemma group_body_inv:
  assumes "index_inv st" "group_body a t i c st = Inr st'"
  shows "index_inv st'"
proof (cases a)
  case GroupDelete
  with assms(2) have "st' = st\<lparr>connections_map := odd_put (connections_map st) t
      (take i (bucket_of (connections_map st) t) @ drop (Suc i) (bucket_of (connections_map st) t))\<rparr>"
    by (auto simp: py_del_def split: if_splits)
  then show ?thesis using index_inv_remove[OF assms(1), of t i] by simp
next
  case (GroupDisable z)
  let ?st1 = "st\<lparr>connections_map := odd_put (connections_map st) t
      (take i (bucket_of (connections_map st) t) @ drop (Suc i) (bucket_of (connections_map st) t))\<rparr>"
  have i1: "index_inv ?st1" using index_inv_remove[OF assms(1), of t i] .
  from assms(2) GroupDisable obtain d where
    e: "st' = (?st1\<lparr>disabled_conns := d\<rparr>)
              \<lparr>heap := (heap st)(c := conn_disable z (heap st c))\<rparr>"
    by (auto simp: py_pop_def split_beta Let_def split: if_splits)
  have i2: "index_inv (?st1\<lparr>disabled_conns := d\<rparr>)" using i1 by (simp add: index_inv_def)
  have "index_inv ((?st1\<lparr>disabled_conns := d\<rparr>)
          \<lparr>heap := (heap (?st1\<lparr>disabled_conns := d\<rparr>))(c := conn_disable z (heap st c))\<rparr>)"
    by (rule index_inv_flag[OF i2]) (simp_all add: conn_disable_def)
  then show ?thesis using e by simp
next
  case GroupEnable
  from assms(2) GroupEnable obtain x lst' st1 where
    s: "store_connection x (st\<lparr>disabled_conns := odd_put (disabled_conns st) t lst'\<rparr>) = Inr st1"
    and e: "st' = st1\<lparr>heap := (heap st1)(c := conn_enable (heap st1 c))\<rparr>"
    by (auto simp: py_pop_def split: if_splits sum.splits)
  have "index_inv (st\<lparr>disabled_conns := odd_put (disabled_conns st) t lst'\<rparr>)"
    using assms(1) by (simp add: index_inv_other_fields)
  from store_connection_inv[OF this s] have i1: "index_inv st1" by simp
  have "index_inv (st1\<lparr>heap := (heap st1)(c := conn_enable (heap st1 c))\<rparr>)"
    by (rule index_inv_flag[OF i1]) (simp_all add: conn_enable_def)
  then show ?thesis using e by simp
qed

lemma find_group_in_bucket_inv:
  "index_inv st \<Longrightarrow> find_group_in_bucket a pre t i st = Inr st' \<Longrightarrow> index_inv st'"
proof (induction a pre t i st rule: find_group_in_bucket.induct)
  case (1 a pre_gids t i st)
  let ?conns = "bucket_of (traversed a st) t"
  show ?case
  proof (cases "i < length ?conns")
    case False
    with "1.prems" show ?thesis by (simp add: find_group_in_bucket.simps)
  next
    case True
    show ?thesis
    proof (cases "gid_matches pre_gids (sgid (heap st (?conns ! i)))")
      case False
      with True "1.prems"(2)
      have "find_group_in_bucket a pre_gids t (Suc i) st = Inr st'"
        by (subst (asm) find_group_in_bucket.simps) (simp add: Let_def)
      from "1.IH"(1)[OF refl True refl _ "1.prems"(1) this] False show ?thesis by simp
    next
      case m: True
      with True "1.prems"(2) obtain st1
        where b: "group_body a t i (?conns ! i) st = Inr st1"
          and r: "find_group_in_bucket a pre_gids t (Suc i) st1 = Inr st'"
        by (subst (asm) find_group_in_bucket.simps) (auto simp: Let_def split: sum.splits)
      have i1: "index_inv st1" using group_body_inv[OF "1.prems"(1) b] .
      from "1.IH"(2)[OF refl True refl _ b i1 r] m show ?thesis by simp
    qed
  qed
qed

lemma find_group_in_keys_inv:
  "index_inv st \<Longrightarrow> find_group_in_keys a post pre ts st = Inr st' \<Longrightarrow> index_inv st'"
proof (induction ts arbitrary: st)
  case Nil
  then show ?case by simp
next
  case (Cons t ts)
  show ?case
  proof (cases "gid_matches post t")
    case False
    with Cons show ?thesis by simp
  next
    case True
    with Cons.prems(2) obtain st1
      where b: "find_group_in_bucket a pre t 0 st = Inr st1"
        and r: "find_group_in_keys a post pre ts st1 = Inr st'"
      by (auto split: sum.splits)
    from Cons.IH[OF find_group_in_bucket_inv[OF Cons.prems(1) b] r] show ?thesis .
  qed
qed

lemma api_inv:
  assumes "index_inv st" "api call st = Inr st'"
  shows "index_inv st'"
proof (cases call)
  case (Store c)
  with assms store_connection_inv show ?thesis by auto
next
  case (Delete s t)
  with assms delete_inv show ?thesis by auto
next
  case (Disable s t z)
  with assms disable_inv show ?thesis by auto
next
  case (Enable s t)
  with assms enable_inv show ?thesis by auto
next
  case (DeleteGroup post pre)
  with assms find_group_in_keys_inv show ?thesis
    by (auto simp: delete_group_def find_group_in_def)
next
  case (DisableGroup post pre z)
  with assms find_group_in_keys_inv show ?thesis
    by (auto simp: disable_group_def find_group_in_def)
next
  case (EnableGroup post pre)
  with assms find_group_in_keys_inv show ?thesis
    by (auto simp: enable_group_def find_group_in_def)
qed

text \<open>
  Whatever calls were made on a new manager, the buckets of the active index are
  strictly ascending in the source gid.
\<close>

lemma run_api_inv:
  "index_inv st \<Longrightarrow> run (map api calls) st = Inr st' \<Longrightarrow> index_inv st'"
proof (induction calls arbitrary: st)
  case Nil
  then show ?case by simp
next
  case (Cons call calls)
  from Cons.prems(2) obtain st1 where a: "api call st = Inr st1"
    and r: "run (map api calls) st1 = Inr st'"
    by (auto split: sum.splits)
  from Cons.IH[OF api_inv[OF Cons.prems(1) a] r] show ?case .
qed

lemma reachable_index_inv:
  "run (map api calls) (new_manager h) = Inr st \<Longrightarrow> index_inv st"
  using run_api_inv[OF new_manager_inv] .

section \<open>No call of the index raises\<close>

lemma enumerate_find_Some:
  "enumerate_find P k xs = Some (i, c) \<Longrightarrow> k \<le> i \<and> i - k < length xs \<and> xs ! (i - k) = c"
proof (induction xs arbitrary: k)
  case Nil
  then show ?case by simp
next
  case (Cons x xs)
  show ?case
  proof (cases "P x")
    case True
    with Cons.prems show ?thesis by simp
  next
    case False
    with Cons.prems have "enumerate_find P (Suc k) xs = Some (i, c)" by simp
    from Cons.IH[OF this] show ?thesis by (auto simp: Suc_diff_le)
  qed
qed

lemma delete_total: "\<exists>st'. delete s t st = Inr st'"
  by (simp add: delete_eq Let_def)

lemma disable_total: "\<exists>st'. disable s t z st = Inr st'"
  by (simp add: disable_eq Let_def)

lemma enable_total: "\<exists>st'. enable s t st = Inr st'"
proof (cases "enumerate_find (\<lambda>c. sgid (heap st c) = s) 0 (bucket_of (disabled_conns st) t)")
  case None
  then show ?thesis by (simp add: enable_eq Let_def)
next
  case (Some ic)
  obtain i c where ic: "ic = (i, c)" by (cases ic)
  from enumerate_find_Some[OF Some[unfolded ic]]
  have i: "i < length (bucket_of (disabled_conns st) t)" by simp
  obtain st2 where "store_connection c (st\<lparr>disabled_conns := snd (odd_getitem (disabled_conns st) t)\<rparr>) = Inr st2"
    using store_connection_total by blast
  with Some ic i show ?thesis by (simp add: enable_eq Let_def py_del_def)
qed

lemma group_body_total:
  assumes "i < length (bucket_of (traversed a st) t)"
  shows "\<exists>st'. group_body a t i c st = Inr st'"
proof (cases a)
  case GroupDelete
  with assms show ?thesis by (simp add: py_del_def)
next
  case (GroupDisable z)
  with assms show ?thesis by (simp add: py_pop_def split_beta Let_def)
next
  case GroupEnable
  obtain st1 where "store_connection (bucket_of (disabled_conns st) t ! i)
      (st\<lparr>disabled_conns := odd_put (disabled_conns st) t
             (take i (bucket_of (disabled_conns st) t) @
              drop (Suc i) (bucket_of (disabled_conns st) t))\<rparr>) = Inr st1"
    using store_connection_total by blast
  with assms GroupEnable show ?thesis by (simp add: py_pop_def)
qed

lemma find_group_in_bucket_total: "\<exists>st'. find_group_in_bucket a pre t i st = Inr st'"
proof (induction a pre t i st rule: find_group_in_bucket.induct)
  case (1 a pre_gids t i st)
  let ?conns = "bucket_of (traversed a st) t"
  show ?case
  proof (cases "i < length ?conns")
    case False
    then show ?thesis by (simp add: find_group_in_bucket.simps)
  next
    case True
    show ?thesis
    proof (cases "gid_matches pre_gids (sgid (heap st (?conns ! i)))")
      case False
      from "1.IH"(1)[OF refl True refl] False
      obtain st' where "find_group_in_bucket a pre_gids t (Suc i) st = Inr st'" by auto
      with True False show ?thesis
        by (subst find_group_in_bucket.simps) (simp add: Let_def)
    next
      case m: True
      from group_body_total[OF True] obtain st1
        where b: "group_body a t i (?conns ! i) st = Inr st1" by blast
      from "1.IH"(2)[OF refl True refl _ b] m
      obtain st' where "find_group_in_bucket a pre_gids t (Suc i) st1 = Inr st'" by auto
      with True m b show ?thesis
        by (subst find_group_in_bucket.simps) (simp add: Let_def)
    qed
  qed
qed

lemma find_group_in_keys_total: "\<exists>st'. find_group_in_keys a post pre ts st = Inr st'"
proof (induction ts arbitrary: st)
  case Nil
  then show ?case by simp
next
  case (Cons t ts)
  obtain st1 where b: "find_group_in_bucket a pre t 0 st = Inr st1"
    using find_group_in_bucket_total by blast
  from Cons[of st] Cons[of st1] b show ?case by auto
qed

lemma api_total: "\<exists>st'. api call st = Inr st'"
proof (cases call)
  case (Store c)
  then show ?thesis using store_connection_total by simp
next
  case (Delete s t)
  then show ?thesis using delete_total by simp
next
  case (Disable s t z)
  then show ?thesis using disable_total by simp
next
  case (Enable s t)
  then show ?thesis using enable_total by simp
next
  case (DeleteGroup post pre)
  then show ?thesis using find_group_in_keys_total
    by (simp add: delete_group_def find_group_in_def)
next
  case (DisableGroup post pre z)
  then show ?thesis using find_group_in_keys_total
    by (simp add: disable_group_def find_group_in_def)
next
  case (EnableGroup post pre)
  then show ?thesis using find_group_in_keys_total
    by (simp add: enable_group_def find_group_in_def)
qed

end
